theory Spec2Isabelle
  imports Complex_Main "HOL-Library.Char_ord" "HOL-Library.List_Lexorder"
begin

section \<open>Errors and control flow\<close>

text \<open>
  The C++ sources signal failure with two exception classes: \<open>std::out_of_range\<close>
  (bounds-checked matrix access, \<open>std::map::at\<close>) and \<open>std::runtime_error\<close>
  (dimension mismatches, the singular system). Both carry a message. A function that
  may throw returns \<open>error + 'a\<close>, with \<open>Inl\<close> for the exception.

  The scalar type \<open>std::complex<double>\<close> is read as the field of complex numbers
  and \<open>double\<close> as the reals: rounding, infinities and NaN are outside this model.
  C++ \<open>int\<close> is read as an unbounded integer.
\<close>

datatype error = out_of_range string | runtime_error string

definition bind_err :: "error + 'a \<Rightarrow> ('a \<Rightarrow> error + 'b) \<Rightarrow> error + 'b" where
  "bind_err m f = (case m of Inl e \<Rightarrow> Inl e | Inr x \<Rightarrow> f x)"

text \<open>
  The counting loop \<open>for (int i = a; i < n; i++) body\<close> over a state \<open>s\<close>; an
  exception thrown by the body leaves the loop.
\<close>

function for_loop :: "int \<Rightarrow> int \<Rightarrow> (int \<Rightarrow> 's \<Rightarrow> error + 's) \<Rightarrow> 's \<Rightarrow> error + 's" where
  "for_loop i n body s =
     (if i < n then (case body i s of Inl e \<Rightarrow> Inl e | Inr s' \<Rightarrow> for_loop (i + 1) n body s')
      else Inr s)"
  by pat_completeness auto

termination
  by (relation "measure (\<lambda>(i, n, body, s). nat (n - i))") auto

declare for_loop.simps [simp del]

section \<open>The dense matrix (matrix.hpp)\<close>

text \<open>
  The class \<open>matrix<T>\<close>: the entries in row-major order, the width and the height.
\<close>

record 'a matrix =
  m_matrix :: "'a list"
  m_w :: int
  m_h :: int

text \<open>The constructor \<open>matrix(h, w)\<close>: \<open>w * h\<close> value-initialised entries.\<close>

definition matrix_new :: "int \<Rightarrow> int \<Rightarrow> 'a::zero matrix" where
  "matrix_new h w = \<lparr>m_matrix = replicate (nat (w * h)) 0, m_w = w, m_h = h\<rparr>"

text \<open>
  \<open>operator()(row, col)\<close> and \<open>at(row, col)\<close>, read: the bounds check, then
  \<open>m_matrix[row * m_w + col]\<close>. \<open>mat_set\<close> is the write through the reference that
  \<open>operator()\<close> returns, and \<open>mat_modify\<close> a compound assignment such as
  \<open>M(row, col) += v\<close>.
\<close>

definition mat_get :: "'a matrix \<Rightarrow> int \<Rightarrow> int \<Rightarrow> error + 'a" where
  "mat_get M row col =
     (if row < 0 \<or> row \<ge> m_h M \<or> col < 0 \<or> col \<ge> m_w M
      then Inl (out_of_range ''access outside of matrix'')
      else Inr (m_matrix M ! nat (row * m_w M + col)))"

definition mat_set :: "'a matrix \<Rightarrow> int \<Rightarrow> int \<Rightarrow> 'a \<Rightarrow> error + 'a matrix" where
  "mat_set M row col v =
     (if row < 0 \<or> row \<ge> m_h M \<or> col < 0 \<or> col \<ge> m_w M
      then Inl (out_of_range ''access outside of matrix'')
      else Inr (M\<lparr>m_matrix := (m_matrix M)[nat (row * m_w M + col) := v]\<rparr>))"

definition mat_modify :: "'a matrix \<Rightarrow> int \<Rightarrow> int \<Rightarrow> ('a \<Rightarrow> 'a) \<Rightarrow> error + 'a matrix" where
  "mat_modify M row col f = bind_err (mat_get M row col) (\<lambda>x. mat_set M row col (f x))"

text \<open>The member functions \<open>replace\<close> and \<open>transpose\<close>, and the two joins.\<close>

definition mat_replace :: "'a matrix \<Rightarrow> int \<Rightarrow> int \<Rightarrow> 'a matrix \<Rightarrow> error + 'a matrix" where
  "mat_replace M row col mat =
     (if row < 0 \<or> col < 0 \<or> row + m_h mat - 1 \<ge> m_h M \<or> col + m_w mat - 1 \<ge> m_w M
      then Inl (out_of_range ''matrix<T>::replace() - out of range'')
      else for_loop 0 (m_h mat) (\<lambda>y. for_loop 0 (m_w mat)
             (\<lambda>x M'. bind_err (mat_get mat y x) (mat_set M' (y + row) (x + col)))) M)"

definition mat_transpose :: "'a::zero matrix \<Rightarrow> error + 'a matrix" where
  "mat_transpose M =
     for_loop 0 (m_h M) (\<lambda>y. for_loop 0 (m_w M)
       (\<lambda>x mat. bind_err (mat_get M y x) (mat_set mat x y))) (matrix_new (m_w M) (m_h M))"

definition join_matrices_horizontal :: "'a::zero matrix \<Rightarrow> 'a matrix \<Rightarrow> error + 'a matrix" where
  "join_matrices_horizontal l r =
     (if m_h l \<noteq> m_h r
      then Inl (runtime_error ''cannot horizontally join matrices of different heights'')
      else bind_err (mat_replace (matrix_new (m_h l) (m_w l + m_w r)) 0 0 l)
             (\<lambda>mat. mat_replace mat 0 (m_w l) r))"

definition join_matrices_vertical :: "'a::zero matrix \<Rightarrow> 'a matrix \<Rightarrow> error + 'a matrix" where
  "join_matrices_vertical u d =
     (if m_w u \<noteq> m_w d
      then Inl (runtime_error ''cannot vertically join matrices of different widths'')
      else bind_err (mat_replace (matrix_new (m_h u + m_h d) (m_w u)) 0 0 u)
             (\<lambda>mat. mat_replace mat (m_h u) 0 d))"

section \<open>The MNA problem (mna.hpp, mna.cpp)\<close>

text \<open>
  The range-based loop \<open>for (const auto &v : xs) body\<close> over a state; an exception
  thrown by the body leaves the loop.
\<close>

fun for_each :: "'a list \<Rightarrow> ('a \<Rightarrow> 's \<Rightarrow> error + 's) \<Rightarrow> 's \<Rightarrow> error + 's" where
  "for_each [] body s = Inr s"
| "for_each (x # xs) body s =
     (case body x s of Inl e \<Rightarrow> Inl e | Inr s' \<Rightarrow> for_each xs body s')"

text \<open>The downward loop \<open>for (int i = a; i >= 0; i--) body\<close>.\<close>

function for_loop_down :: "int \<Rightarrow> (int \<Rightarrow> 's \<Rightarrow> error + 's) \<Rightarrow> 's \<Rightarrow> error + 's" where
  "for_loop_down i body s =
     (if i \<ge> 0 then (case body i s of Inl e \<Rightarrow> Inl e | Inr s' \<Rightarrow> for_loop_down (i - 1) body s')
      else Inr s)"
  by pat_completeness auto

termination
  by (relation "measure (\<lambda>(i, body, s). nat (i + 1))") auto

declare for_loop_down.simps [simp del]

text \<open>
  The structs of \<open>mna.hpp\<close>. A node index below zero is ground. The fields \<open>nodes\<close>,
  \<open>Y\<close>, \<open>V\<close> and \<open>I\<close> carry the name of their struct as a prefix, and \<open>m_solution\<close>
  of \<open>mna_solution\<close> is \<open>m_solution_matrix\<close>, since the fields of all records share
  one name space.
\<close>

record mna_admittance =
  adm_nodes :: "int \<times> int"
  adm_Y :: complex

record mna_voltage_source =
  vs_nodes :: "int \<times> int"
  vs_V :: real

record mna_current_source =
  cs_nodes :: "int \<times> int"
  cs_I :: real

record mna_opamp =
  pos_input_node :: int
  neg_input_node :: int
  output_node :: int

record mna_problem =
  admittances :: "mna_admittance list"
  voltage_sources :: "mna_voltage_source list"
  current_sources :: "mna_current_source list"
  opamps :: "mna_opamp list"

record mna_solution =
  m_solution_matrix :: "complex matrix"
  m_node_count :: int
  m_voltage_source_count :: int

subsection \<open>Gaussian elimination\<close>

text \<open>
  The three lambdas of \<open>gaussian_elimination\<close>, which work on its local copy \<open>mat\<close>.
\<close>

definition swap_rows :: "complex matrix \<Rightarrow> int \<Rightarrow> int \<Rightarrow> error + complex matrix" where
  "swap_rows mat a b =
     for_loop 0 (m_w mat)
       (\<lambda>i mat. bind_err (mat_get mat a i) (\<lambda>x. bind_err (mat_get mat b i) (\<lambda>y.
                 bind_err (mat_set mat a i y) (\<lambda>mat. mat_set mat b i x)))) mat"

definition add_rows :: "complex matrix \<Rightarrow> int \<Rightarrow> int \<Rightarrow> error + complex matrix" where
  "add_rows mat dest src =
     for_loop 0 (m_w mat)
       (\<lambda>i mat. bind_err (mat_get mat src i) (\<lambda>v. mat_modify mat dest i (\<lambda>x. x + v))) mat"

definition multiply_row :: "complex matrix \<Rightarrow> int \<Rightarrow> complex \<Rightarrow> error + complex matrix" where
  "multiply_row mat r k = for_loop 0 (m_w mat) (\<lambda>i mat. mat_modify mat r i (\<lambda>x. x * k)) mat"

text \<open>
  The search for the row with the largest modulus in column \<open>k\<close>; the state is the pair
  \<open>(max, row_max)\<close>.
\<close>

definition find_pivot :: "complex matrix \<Rightarrow> int \<Rightarrow> int \<Rightarrow> error + real \<times> int" where
  "find_pivot mat N k =
     bind_err (mat_get mat k k) (\<lambda>p.
       for_loop (k + 1) N
         (\<lambda>i (mx, row_max). bind_err (mat_get mat i k) (\<lambda>q.
            let x = cmod q in if x > mx then Inr (x, i) else Inr (mx, row_max)))
         (cmod p, k))"

definition eliminate_below :: "int \<Rightarrow> int \<Rightarrow> complex \<Rightarrow> complex matrix \<Rightarrow> error + complex matrix" where
  "eliminate_below N k v mat =
     for_loop (k + 1) N
       (\<lambda>i mat. bind_err (mat_get mat i k) (\<lambda>a.
          if a \<noteq> 0
          then bind_err (mat_get mat i k) (\<lambda>a'.
               bind_err (multiply_row mat i (- v / a')) (\<lambda>mat. add_rows mat i k))
          else Inr mat)) mat"

text \<open>The body of the loop over the columns \<open>k\<close>.\<close>

definition elimination_step :: "int \<Rightarrow> int \<Rightarrow> complex matrix \<Rightarrow> error + complex matrix" where
  "elimination_step N k mat =
     bind_err (find_pivot mat N k) (\<lambda>(mx, row_max).
       if mx = 0
       then Inl (runtime_error ''Could not solve equation system (Gaussian elimination failed)'')
       else bind_err (swap_rows mat row_max k) (\<lambda>mat.
            bind_err (mat_get mat k k) (\<lambda>v. eliminate_below N k v mat)))"

text \<open>The body of the back substitution loop; the state is the solution column.\<close>

definition back_substitution_step ::
    "int \<Rightarrow> complex matrix \<Rightarrow> int \<Rightarrow> complex matrix \<Rightarrow> error + complex matrix" where
  "back_substitution_step N mat i solution =
     bind_err (mat_get mat i N) (\<lambda>sum.
     bind_err (for_loop i N
                 (\<lambda>j sum. bind_err (mat_get mat i j) (\<lambda>a. bind_err (mat_get solution j 0) (\<lambda>x.
                    Inr (sum - a * x)))) sum) (\<lambda>sum.
     bind_err (mat_get mat i i) (\<lambda>d. mat_set solution i 0 (sum / d))))"

definition gaussian_elimination :: "complex matrix \<Rightarrow> error + complex matrix" where
  "gaussian_elimination mat =
     (let N = m_h mat in
      if m_w mat \<noteq> N + 1 then Inl (runtime_error ''Invalid equation system dimensions'')
      else bind_err (for_loop 0 N (elimination_step N) mat) (\<lambda>mat.
           for_loop_down (N - 1) (back_substitution_step N mat) (matrix_new N 1)))"

subsection \<open>Assembly of the system\<close>

text \<open>\<open>mna_problem::get_max_node\<close>: the largest node index, \<open>-1\<close> when there is none.\<close>

definition get_max_node :: "mna_problem \<Rightarrow> int" where
  "get_max_node p =
     (let max_node = - 1;
          max_node = fold (\<lambda>v m. max (max m (fst (adm_nodes v))) (snd (adm_nodes v)))
                       (admittances p) max_node;
          max_node = fold (\<lambda>v m. max (max m (fst (vs_nodes v))) (snd (vs_nodes v)))
                       (voltage_sources p) max_node;
          max_node = fold (\<lambda>v m. max (max m (fst (cs_nodes v))) (snd (cs_nodes v)))
                       (current_sources p) max_node;
          max_node = fold (\<lambda>v m. max (max (max m (pos_input_node v)) (neg_input_node v))
                                   (output_node v))
                       (opamps p) max_node
      in max_node)"

text \<open>The bodies of the loops of \<open>compute_matrix_A\<close>, in the order of the source.\<close>

definition stamp_admittance :: "mna_admittance \<Rightarrow> complex matrix \<Rightarrow> error + complex matrix" where
  "stamp_admittance elem G =
     (let a = fst (adm_nodes elem); b = snd (adm_nodes elem) in
      bind_err (if a \<ge> 0 then mat_modify G a a (\<lambda>x. x + adm_Y elem) else Inr G) (\<lambda>G.
      bind_err (if b \<ge> 0 then mat_modify G b b (\<lambda>x. x + adm_Y elem) else Inr G) (\<lambda>G.
      if a \<ge> 0 \<and> b \<ge> 0
      then bind_err (mat_modify G a b (\<lambda>x. x - adm_Y elem)) (\<lambda>G.
           mat_modify G b a (\<lambda>x. x - adm_Y elem))
      else Inr G)))"

definition stamp_voltage_source ::
    "mna_voltage_source list \<Rightarrow> int \<Rightarrow> complex matrix \<Rightarrow> error + complex matrix" where
  "stamp_voltage_source vss i B =
     (let vs = vss ! nat i in
      bind_err (if fst (vs_nodes vs) \<ge> 0 then mat_set B (fst (vs_nodes vs)) i 1 else Inr B) (\<lambda>B.
      if snd (vs_nodes vs) \<ge> 0 then mat_set B (snd (vs_nodes vs)) i (- 1) else Inr B))"

definition stamp_opamp_output ::
    "mna_opamp \<Rightarrow> complex matrix \<times> int \<Rightarrow> error + complex matrix \<times> int" where
  "stamp_opamp_output opa = (\<lambda>(B, i).
     bind_err (if output_node opa \<ge> 0 then mat_set B (output_node opa) i 1 else Inr B) (\<lambda>B.
     Inr (B, i + 1)))"

definition stamp_opamp_inputs ::
    "mna_opamp \<Rightarrow> complex matrix \<times> int \<Rightarrow> error + complex matrix \<times> int" where
  "stamp_opamp_inputs opa = (\<lambda>(C, i).
     bind_err (if pos_input_node opa \<ge> 0 then mat_set C i (pos_input_node opa) 1 else Inr C) (\<lambda>C.
     bind_err (if neg_input_node opa \<ge> 0 then mat_set C i (neg_input_node opa) (- 1) else Inr C) (\<lambda>C.
     Inr (C, i + 1))))"

definition compute_matrix_A :: "mna_problem \<Rightarrow> int \<Rightarrow> error + complex matrix" where
  "compute_matrix_A p node_count =
     (let n = node_count;
          m = int (length (opamps p)) + int (length (voltage_sources p));
          G = matrix_new n n; B = matrix_new n m; D = matrix_new m m
      in
      bind_err (for_each (admittances p) stamp_admittance G) (\<lambda>G.
      bind_err (for_loop 0 (int (length (voltage_sources p)))
                  (stamp_voltage_source (voltage_sources p)) B) (\<lambda>B.
      bind_err (mat_transpose B) (\<lambda>C.
      bind_err (for_each (opamps p) stamp_opamp_output
                  (B, int (length (voltage_sources p)))) (\<lambda>(B, i).
      bind_err (for_each (opamps p) stamp_opamp_inputs
                  (C, int (length (voltage_sources p)))) (\<lambda>(C, i).
      bind_err (join_matrices_horizontal G B) (\<lambda>GB.
      bind_err (join_matrices_horizontal C D) (\<lambda>CD.
      join_matrices_vertical GB CD))))))))"

definition stamp_current_source :: "mna_current_source \<Rightarrow> complex matrix \<Rightarrow> error + complex matrix" where
  "stamp_current_source cs I =
     bind_err (if fst (cs_nodes cs) \<ge> 0
               then mat_modify I (fst (cs_nodes cs)) 0 (\<lambda>x. x + complex_of_real (cs_I cs))
               else Inr I) (\<lambda>I.
     if snd (cs_nodes cs) \<ge> 0
     then mat_modify I (snd (cs_nodes cs)) 0 (\<lambda>x. x + complex_of_real (- cs_I cs))
     else Inr I)"

definition compute_matrix_z :: "mna_problem \<Rightarrow> int \<Rightarrow> error + complex matrix" where
  "compute_matrix_z p node_count =
     (let n = node_count;
          m = int (length (opamps p)) + int (length (voltage_sources p));
          I = matrix_new n 1; E = matrix_new m 1
      in
      bind_err (for_each (current_sources p) stamp_current_source I) (\<lambda>I.
      bind_err (for_loop 0 (int (length (voltage_sources p)))
                  (\<lambda>i E. mat_set E i 0 (complex_of_real (vs_V (voltage_sources p ! nat i)))) E) (\<lambda>E.
      join_matrices_vertical I E)))"

definition mna_solve :: "mna_problem \<Rightarrow> error + mna_solution" where
  "mna_solve p =
     (let node_count = get_max_node p + 1 in
      bind_err (compute_matrix_A p node_count) (\<lambda>A.
      bind_err (compute_matrix_z p node_count) (\<lambda>z.
      bind_err (join_matrices_horizontal A z) (\<lambda>system.
      bind_err (gaussian_elimination system) (\<lambda>x.
      Inr \<lparr>m_solution_matrix = x, m_node_count = node_count,
           m_voltage_source_count = int (length (voltage_sources p))\<rparr>)))))"

subsection \<open>Queries on the solution\<close>




section \<open>The circuit and its solver (circuit.hpp, circuit.cpp)\<close>

text \<open>
  The component classes. \<open>resistor\<close>, \<open>inductor\<close> and \<open>capacitor\<close> derive from
  \<open>passive_component\<close>, which derives, as \<open>voltage_source\<close> and \<open>current_source\<close> do,
  from \<open>bipole_component\<close> (a pair of nodes); \<open>opamp\<close> derives from the base class
  \<open>circuit_component\<close> alone. \<open>other_component\<close> stands for an object of the base class
  itself. The sources carry a DC and an AC value.
\<close>

datatype circuit_component =
    resistor "int \<times> int" real
  | inductor "int \<times> int" real
  | capacitor "int \<times> int" real
  | voltage_source "int \<times> int" real real
  | current_source "int \<times> int" real real
  | opamp int int int
  | other_component

definition resistor_admittance :: "real \<Rightarrow> real \<Rightarrow> complex" where
  "resistor_admittance R omega = complex_of_real (1 / R)"

definition inductor_admittance :: "real \<Rightarrow> real \<Rightarrow> complex" where
  "inductor_admittance L omega =
     1 / (if omega = 0 then complex_of_real (1 / 10 ^ 9)
          else \<i> * complex_of_real omega * complex_of_real L)"

definition capacitor_admittance :: "real \<Rightarrow> real \<Rightarrow> complex" where
  "capacitor_admittance C omega = \<i> * complex_of_real omega * complex_of_real C"

text \<open>
  \<open>dynamic_cast\<close> to \<open>passive_component\<close>: the nodes and the virtual method
  \<open>admittance\<close> of the object, when it is a passive component.
\<close>

fun as_passive_component :: "circuit_component \<Rightarrow> ((int \<times> int) \<times> (real \<Rightarrow> complex)) option" where
  "as_passive_component (resistor nodes R) = Some (nodes, resistor_admittance R)"
| "as_passive_component (inductor nodes L) = Some (nodes, inductor_admittance L)"
| "as_passive_component (capacitor nodes C) = Some (nodes, capacitor_admittance C)"
| "as_passive_component _ = None"

text \<open>\<open>dynamic_cast\<close> to \<open>bipole_component\<close>: the pair of nodes.\<close>

fun as_bipole_component :: "circuit_component \<Rightarrow> (int \<times> int) option" where
  "as_bipole_component (resistor nodes R) = Some nodes"
| "as_bipole_component (inductor nodes L) = Some nodes"
| "as_bipole_component (capacitor nodes C) = Some nodes"
| "as_bipole_component (voltage_source nodes dcV acV) = Some nodes"
| "as_bipole_component (current_source nodes dcI acI) = Some nodes"
| "as_bipole_component _ = None"

fun is_voltage_source :: "circuit_component \<Rightarrow> bool" where
  "is_voltage_source (voltage_source nodes dcV acV) = True"
| "is_voltage_source _ = False"

fun is_opamp :: "circuit_component \<Rightarrow> bool" where
  "is_opamp (opamp p n out) = True"
| "is_opamp _ = False"

text \<open>
  A \<open>std::shared_ptr<circuit_component>\<close> is the address of the object together with
  the object; the solver compares addresses where the source compares pointers. The
  circuit, a \<open>std::map\<close> from the reference string to the pointer, is the list of its
  entries in iteration order.
\<close>

type_synonym component_ptr = "nat \<times> circuit_component"

type_synonym circuit = "(string \<times> component_ptr) list"



text \<open>
  The class \<open>circuit_solver\<close>. \<open>m_circuit\<close> points to the circuit of the caller; here
  the solver holds the circuit it looks at.
\<close>

record circuit_solver =
  m_circuit :: circuit
  m_node_map :: "int \<Rightarrow> int option"
  m_problem :: mna_problem
  m_solution :: "mna_solution option"
  m_solution_omega :: "real option"

definition node_map_at :: "(int \<Rightarrow> int option) \<Rightarrow> int \<Rightarrow> error + int" where
  "node_map_at node_map n =
     (case node_map n of None \<Rightarrow> Inl (out_of_range ''map::at'') | Some v \<Rightarrow> Inr v)"

subsection \<open>The node map\<close>

definition add_node :: "int \<Rightarrow> (int \<Rightarrow> int option) \<times> int \<Rightarrow> (int \<Rightarrow> int option) \<times> int" where
  "add_node n = (\<lambda>(node_map, cnt).
     (case node_map n of Some v \<Rightarrow> (node_map, cnt) | None \<Rightarrow> (node_map(n \<mapsto> cnt), cnt + 1)))"

definition add_component_nodes ::
    "string \<times> component_ptr \<Rightarrow> (int \<Rightarrow> int option) \<times> int \<Rightarrow> (int \<Rightarrow> int option) \<times> int" where
  "add_component_nodes entry st =
     (let component = snd (snd entry);
          st = (case as_bipole_component component of
                  Some nodes \<Rightarrow> add_node (snd nodes) (add_node (fst nodes) st)
                | None \<Rightarrow> st)
      in (case component of
            opamp pos neg out \<Rightarrow> add_node out (add_node neg (add_node pos st))
          | _ \<Rightarrow> st))"

definition update_node_map :: "circuit_solver \<Rightarrow> circuit_solver" where
  "update_node_map s =
     s\<lparr>m_node_map := fst (fold add_component_nodes (m_circuit s) (Map.empty(0 \<mapsto> - 1), 0))\<rparr>"

subsection \<open>Lowering and solving\<close>

definition map_node_pair :: "(int \<Rightarrow> int option) \<Rightarrow> int \<times> int \<Rightarrow> error + int \<times> int" where
  "map_node_pair node_map p =
     bind_err (node_map_at node_map (fst p)) (\<lambda>a.
     bind_err (node_map_at node_map (snd p)) (\<lambda>b. Inr (a, b)))"

text \<open>The body of the loop of \<open>solve\<close> over the circuit: one component is lowered.\<close>

definition lower_component ::
    "real \<Rightarrow> (int \<Rightarrow> int option) \<Rightarrow> string \<times> component_ptr \<Rightarrow> mna_problem \<Rightarrow> error + mna_problem" where
  "lower_component omega node_map entry prob =
     (let component = snd (snd entry) in
      bind_err (case as_passive_component component of
                  Some (nodes, adm) \<Rightarrow>
                    bind_err (map_node_pair node_map nodes) (\<lambda>ns.
                    Inr (prob\<lparr>admittances := admittances prob @
                                 [\<lparr>adm_nodes = ns, adm_Y = adm omega\<rparr>]\<rparr>))
                | None \<Rightarrow> Inr prob) (\<lambda>prob.
      bind_err (case component of
                  opamp pos neg out \<Rightarrow>
                    bind_err (node_map_at node_map pos) (\<lambda>p'.
                    bind_err (node_map_at node_map neg) (\<lambda>n'.
                    bind_err (node_map_at node_map out) (\<lambda>o'.
                    Inr (prob\<lparr>opamps := opamps prob @
                                 [\<lparr>pos_input_node = p', neg_input_node = n', output_node = o'\<rparr>]\<rparr>))))
                | _ \<Rightarrow> Inr prob) (\<lambda>prob.
      bind_err (case component of
                  voltage_source nodes dcV acV \<Rightarrow>
                    (let x = (if omega = 0 then dcV else acV) in
                     bind_err (map_node_pair node_map nodes) (\<lambda>ns.
                     Inr (prob\<lparr>voltage_sources := voltage_sources prob @
                                  [\<lparr>vs_nodes = ns, vs_V = x\<rparr>]\<rparr>)))
                | _ \<Rightarrow> Inr prob) (\<lambda>prob.
      (case component of
         current_source nodes dcI acI \<Rightarrow>
           (let x = (if omega = 0 then dcI else acI) in
            bind_err (map_node_pair node_map nodes) (\<lambda>ns.
            Inr (prob\<lparr>current_sources := current_sources prob @
                         [\<lparr>cs_nodes = ns, cs_I = x\<rparr>]\<rparr>)))
       | _ \<Rightarrow> Inr prob)))))"

text \<open>
  The loop of \<open>solve\<close> over the circuit. It works on the member \<open>m_problem\<close> in place:
  when a component throws, the problem built so far stays behind.
\<close>

fun lower_circuit ::
    "real \<Rightarrow> (int \<Rightarrow> int option) \<Rightarrow> circuit \<Rightarrow> mna_problem \<Rightarrow> error option \<times> mna_problem" where
  "lower_circuit omega node_map [] prob = (None, prob)"
| "lower_circuit omega node_map (entry # rest) prob =
     (case lower_component omega node_map entry prob of
        Inl e \<Rightarrow> (Some e, prob)
      | Inr prob' \<Rightarrow> lower_circuit omega node_map rest prob')"

text \<open>
  \<open>circuit_solver::solve\<close>: the exception that leaves the function, if any, and the
  solver as the call leaves it. Only a \<open>std::runtime_error\<close> of the MNA solver is
  caught and wrapped.
\<close>

definition solve :: "real \<Rightarrow> circuit_solver \<Rightarrow> error option \<times> circuit_solver" where
  "solve omega s =
     (let s = s\<lparr>m_solution_omega := Some omega\<rparr>;
          s = s\<lparr>m_problem := (m_problem s)\<lparr>admittances := [], voltage_sources := [],
                               current_sources := [], opamps := []\<rparr>\<rparr>;
          (err, prob) = lower_circuit omega (m_node_map s) (m_circuit s) (m_problem s);
          s = s\<lparr>m_problem := prob\<rparr>
      in case err of
           Some e \<Rightarrow> (Some e, s)
         | None \<Rightarrow>
             (case mna_solve (m_problem s) of
                Inr sol \<Rightarrow> (None, s\<lparr>m_solution := Some sol\<rparr>)
              | Inl (runtime_error what) \<Rightarrow>
                  (Some (runtime_error (''Could not compute operating point - reason: '' @ what)), s)
              | Inl (out_of_range what) \<Rightarrow> (Some (out_of_range what), s)))"

text \<open>The default-constructed \<open>mna_problem\<close>: four empty vectors.\<close>

definition empty_problem :: mna_problem where
  "empty_problem = \<lparr>admittances = [], voltage_sources = [], current_sources = [], opamps = []\<rparr>"

definition circuit_solver_new :: "circuit \<Rightarrow> circuit_solver" where
  "circuit_solver_new circ =
     update_node_map \<lparr>m_circuit = circ, m_node_map = Map.empty, m_problem = empty_problem,
        m_solution = None, m_solution_omega = None\<rparr>"

definition get_solution :: "circuit_solver \<Rightarrow> mna_solution option" where
  "get_solution s = m_solution s"

definition get_solution_omega :: "circuit_solver \<Rightarrow> real option" where
  "get_solution_omega s = m_solution_omega s"

subsection \<open>Queries by component\<close>

text \<open>
  The queries read through \<open>m_solution\<close> and \<open>m_solution_omega\<close>, which the source
  dereferences unchecked: they are arguments here, present once \<open>solve\<close> has run.
\<close>







section \<open>Notions used in the statements, and sample inputs\<close>

text \<open>
  The invariant of the class \<open>matrix\<close>: the dimensions are not negative and the storage
  holds \<open>m_w * m_h\<close> entries. The constructor establishes it and the member functions
  keep it.
\<close>

definition wf_matrix :: "'a matrix \<Rightarrow> bool" where
  "wf_matrix M \<longleftrightarrow> 0 \<le> m_w M \<and> 0 \<le> m_h M \<and> length (m_matrix M) = nat (m_w M * m_h M)"

text \<open>
  The entry \<open>(r, c)\<close> as \<open>operator()\<close> reads it once its bounds check has passed:
  \<open>m_matrix[row * m_w + col]\<close>.
\<close>

definition ent :: "'a matrix \<Rightarrow> int \<Rightarrow> int \<Rightarrow> 'a" where
  "ent M r c = m_matrix M ! nat (r * m_w M + c)"

text \<open>The matrix after the write \<open>M(r, c) = v\<close>, once the bounds check has passed.\<close>

definition mat_upd :: "'a matrix \<Rightarrow> int \<Rightarrow> int \<Rightarrow> 'a \<Rightarrow> 'a matrix" where
  "mat_upd M r c v = M\<lparr>m_matrix := (m_matrix M)[nat (r * m_w M + c) := v]\<rparr>"

text \<open>A well-formed matrix with the dimensions of another one.\<close>

definition same_shape :: "'a matrix \<Rightarrow> 'a matrix \<Rightarrow> bool" where
  "same_shape M' M \<longleftrightarrow> wf_matrix M' \<and> m_h M' = m_h M \<and> m_w M' = m_w M"

text \<open>The node labels of a component, in the order in which \<open>update_node_map\<close> meets them.\<close>

fun component_nodes :: "circuit_component \<Rightarrow> int list" where
  "component_nodes (resistor nodes R) = [fst nodes, snd nodes]"
| "component_nodes (inductor nodes L) = [fst nodes, snd nodes]"
| "component_nodes (capacitor nodes C) = [fst nodes, snd nodes]"
| "component_nodes (voltage_source nodes dcV acV) = [fst nodes, snd nodes]"
| "component_nodes (current_source nodes dcI acI) = [fst nodes, snd nodes]"
| "component_nodes (opamp pos neg out) = [pos, neg, out]"
| "component_nodes other_component = []"

definition circuit_nodes :: "circuit \<Rightarrow> int list" where
  "circuit_nodes circ = concat (map (\<lambda>entry. component_nodes (snd (snd entry))) circ)"

text \<open>The distinct non-ground labels of a list, in the order of their first occurrence.\<close>

fun first_encounters :: "int list \<Rightarrow> int list" where
  "first_encounters [] = []"
| "first_encounters (x # xs) =
     (if x = 0 then first_encounters xs else x # filter (\<lambda>y. y \<noteq> x) (first_encounters xs))"

text \<open>
  The state \<open>(m_node_map, cnt)\<close> of the walk of \<open>update_node_map\<close> once it has met the
  labels \<open>xs\<close>.
\<close>

definition node_map_inv :: "int list \<Rightarrow> (int \<Rightarrow> int option) \<times> int \<Rightarrow> bool" where
  "node_map_inv xs st \<longleftrightarrow>
     snd st = int (length (first_encounters xs)) \<and> fst st 0 = Some (- 1) \<and>
     dom (fst st) = insert 0 (set xs) \<and>
     (\<forall>i < length (first_encounters xs). fst st (first_encounters xs ! i) = Some (int i))"

text \<open>A voltage divider on the labels 5, 3 and 0.\<close>

definition divider :: circuit where
  "divider = [(''R1'', (0, resistor (5, 3) 1000)), (''R2'', (1, resistor (3, 0) 1000)),
              (''V1'', (2, voltage_source (5, 0) 10 0))]"

text \<open>A voltage source with both terminals on ground: its system is singular.\<close>

definition shorted_source :: circuit where
  "shorted_source = [(''V1'', (0, voltage_source (0, 0) 1 1))]"

text \<open>A capacitor fed by a current source: solvable at AC, singular at DC.\<close>

definition charged_capacitor :: circuit where
  "charged_capacitor =
     [(''C1'', (0, capacitor (1, 0) 1)), (''I1'', (1, current_source (0, 1) 1 1))]"

text \<open>What the loop of \<open>solve\<close> appends to the four lists when no label is missing from the node map.\<close>

definition lowered_admittances :: "real \<Rightarrow> (int \<Rightarrow> int option) \<Rightarrow> circuit \<Rightarrow> mna_admittance list" where
  "lowered_admittances omega node_map circ =
     concat (map (\<lambda>entry. case as_passive_component (snd (snd entry)) of
                    Some (nodes, adm) \<Rightarrow>
                      [\<lparr>adm_nodes = (the (node_map (fst nodes)), the (node_map (snd nodes))),
                        adm_Y = adm omega\<rparr>]
                  | None \<Rightarrow> []) circ)"

definition lowered_voltage_source :: "real \<Rightarrow> (int \<Rightarrow> int option) \<Rightarrow> circuit_component \<Rightarrow> mna_voltage_source" where
  "lowered_voltage_source omega node_map component =
     (case component of
        voltage_source nodes dcV acV \<Rightarrow>
          \<lparr>vs_nodes = (the (node_map (fst nodes)), the (node_map (snd nodes))),
           vs_V = (if omega = 0 then dcV else acV)\<rparr>)"

definition lowered_opamp :: "(int \<Rightarrow> int option) \<Rightarrow> circuit_component \<Rightarrow> mna_opamp" where
  "lowered_opamp node_map component =
     (case component of
        opamp pos neg out \<Rightarrow>
          \<lparr>pos_input_node = the (node_map pos), neg_input_node = the (node_map neg),
           output_node = the (node_map out)\<rparr>)"

definition lowered_current_sources :: "real \<Rightarrow> (int \<Rightarrow> int option) \<Rightarrow> circuit \<Rightarrow> mna_current_source list" where
  "lowered_current_sources omega node_map circ =
     concat (map (\<lambda>entry. case snd (snd entry) of
                    current_source nodes dcI acI \<Rightarrow>
                      [\<lparr>cs_nodes = (the (node_map (fst nodes)), the (node_map (snd nodes))),
                        cs_I = (if omega = 0 then dcI else acI)\<rparr>]
                  | _ \<Rightarrow> []) circ)"

definition lowered_problem :: "real \<Rightarrow> (int \<Rightarrow> int option) \<Rightarrow> circuit \<Rightarrow> mna_problem \<Rightarrow> mna_problem" where
  "lowered_problem omega node_map circ prob =
     \<lparr>admittances = admittances prob @ lowered_admittances omega node_map circ,
      voltage_sources = voltage_sources prob @
         map (\<lambda>entry. lowered_voltage_source omega node_map (snd (snd entry)))
           (filter (\<lambda>entry. is_voltage_source (snd (snd entry))) circ),
      current_sources = current_sources prob @ lowered_current_sources omega node_map circ,
      opamps = opamps prob @
         map (\<lambda>entry. lowered_opamp node_map (snd (snd entry)))
           (filter (\<lambda>entry. is_opamp (snd (snd entry))) circ)\<rparr>"

text \<open>An RLC circuit at DC and at \<open>omega = 2\<close>.\<close>

definition rlc :: circuit where
  "rlc = [(''C1'', (0, capacitor (2, 0) 3)), (''L1'', (1, inductor (1, 2) 5)),
          (''R1'', (2, resistor (1, 0) 4)), (''V1'', (3, voltage_source (1, 0) 1 1))]"







text \<open>All node indices of the problem are below \<open>n\<close>.\<close>

definition nodes_below :: "mna_problem \<Rightarrow> int \<Rightarrow> bool" where
  "nodes_below p n \<longleftrightarrow>
     (\<forall>v \<in> set (admittances p). fst (adm_nodes v) < n \<and> snd (adm_nodes v) < n) \<and>
     (\<forall>v \<in> set (voltage_sources p). fst (vs_nodes v) < n \<and> snd (vs_nodes v) < n) \<and>
     (\<forall>v \<in> set (current_sources p). fst (cs_nodes v) < n \<and> snd (cs_nodes v) < n) \<and>
     (\<forall>v \<in> set (opamps p). pos_input_node v < n \<and> neg_input_node v < n \<and> output_node v < n)"

text \<open>
  What one admittance \<open>(a, b, Y)\<close> adds to the entry \<open>(i, j)\<close> of \<open>G\<close>: \<open>Y\<close> at \<open>(a, a)\<close>
  when \<open>a \<ge> 0\<close>, \<open>Y\<close> at \<open>(b, b)\<close> when \<open>b \<ge> 0\<close>, and \<open>-Y\<close> at \<open>(a, b)\<close> and at \<open>(b, a)\<close>
  when both are.
\<close>

definition G_contribution :: "mna_admittance \<Rightarrow> int \<Rightarrow> int \<Rightarrow> complex" where
  "G_contribution elem i j =
     (let a = fst (adm_nodes elem); b = snd (adm_nodes elem); Y = adm_Y elem in
      (if a \<ge> 0 \<and> i = a \<and> j = a then Y else 0)
      + (if b \<ge> 0 \<and> i = b \<and> j = b then Y else 0)
      - (if a \<ge> 0 \<and> b \<ge> 0 \<and> i = a \<and> j = b then Y else 0)
      - (if a \<ge> 0 \<and> b \<ge> 0 \<and> i = b \<and> j = a then Y else 0))"

text \<open>
  The column of \<open>B\<close> of a voltage source \<open>(a, b)\<close>: \<open>+1\<close> in row \<open>a\<close> and \<open>-1\<close> in row
  \<open>b\<close>. The entry for \<open>b\<close> is written last, so it stands when \<open>a = b\<close>.
\<close>

definition voltage_source_stamp :: "mna_voltage_source \<Rightarrow> int \<Rightarrow> complex" where
  "voltage_source_stamp vs i =
     (if i = snd (vs_nodes vs) then - 1 else if i = fst (vs_nodes vs) then 1 else 0)"

text \<open>The row of \<open>C\<close> of an op-amp: \<open>+1\<close> at the non-inverting input, then \<open>-1\<close> at the inverting one.\<close>

definition opamp_input_stamp :: "mna_opamp \<Rightarrow> int \<Rightarrow> complex" where
  "opamp_input_stamp opa j =
     (if j = neg_input_node opa then - 1 else if j = pos_input_node opa then 1 else 0)"

text \<open>The column of \<open>B\<close> of an op-amp: \<open>+1\<close> at the output node.\<close>

definition opamp_output_stamp :: "mna_opamp \<Rightarrow> int \<Rightarrow> complex" where
  "opamp_output_stamp opa i = (if i = output_node opa then 1 else 0)"

text \<open>
  The entry \<open>(i, j)\<close> of the assembled matrix \<open>A = [G B; C D]\<close> for \<open>n\<close> nodes, by blocks.
\<close>

definition A_entry :: "mna_problem \<Rightarrow> int \<Rightarrow> int \<Rightarrow> int \<Rightarrow> complex" where
  "A_entry p n i j =
     (let V = int (length (voltage_sources p)) in
      if i < n then
        (if j < n then (\<Sum>elem\<leftarrow>admittances p. G_contribution elem i j)
         else if j - n < V then voltage_source_stamp (voltage_sources p ! nat (j - n)) i
         else opamp_output_stamp (opamps p ! nat (j - n - V)) i)
      else
        (if j < n then
           (if i - n < V then voltage_source_stamp (voltage_sources p ! nat (i - n)) j
            else opamp_input_stamp (opamps p ! nat (i - n - V)) j)
         else 0))"

text \<open>
  What one current source \<open>(a, b, I)\<close> adds to the entry \<open>i\<close> of the current vector:
  \<open>I\<close> at \<open>a\<close> when \<open>a \<ge> 0\<close> and \<open>-I\<close> at \<open>b\<close> when \<open>b \<ge> 0\<close>.
\<close>

definition i_contribution :: "mna_current_source \<Rightarrow> int \<Rightarrow> complex" where
  "i_contribution cs i =
     (if fst (cs_nodes cs) \<ge> 0 \<and> i = fst (cs_nodes cs) then complex_of_real (cs_I cs) else 0)
     - (if snd (cs_nodes cs) \<ge> 0 \<and> i = snd (cs_nodes cs) then complex_of_real (cs_I cs) else 0)"

text \<open>The entry \<open>i\<close> of the right-hand side \<open>z = [i; e]\<close> for \<open>n\<close> nodes.\<close>

definition z_entry :: "mna_problem \<Rightarrow> int \<Rightarrow> int \<Rightarrow> complex" where
  "z_entry p n i =
     (if i < n then (\<Sum>cs\<leftarrow>current_sources p. i_contribution cs i)
      else if i - n < int (length (voltage_sources p))
           then complex_of_real (vs_V (voltage_sources p ! nat (i - n)))
           else 0)"

text \<open>
  An inverting amplifier in MNA indices: three nodes, one voltage source, one op-amp, and
  a current source into node 1.
\<close>

definition amplifier_problem :: mna_problem where
  "amplifier_problem =
     \<lparr>admittances = [\<lparr>adm_nodes = (0, 1), adm_Y = 2\<rparr>, \<lparr>adm_nodes = (1, 2), adm_Y = 3\<rparr>,
                     \<lparr>adm_nodes = (2, - 1), adm_Y = 5\<rparr>],
      voltage_sources = [\<lparr>vs_nodes = (0, - 1), vs_V = 1\<rparr>],
      current_sources = [\<lparr>cs_nodes = (- 1, 1), cs_I = 7\<rparr>],
      opamps = [\<lparr>pos_input_node = - 1, neg_input_node = 1, output_node = 2\<rparr>]\<rparr>"

text \<open>The largest modulus in column \<open>k\<close> over the rows \<open>k, ..., N - 1\<close>.\<close>

definition pivot_max :: "complex matrix \<Rightarrow> int \<Rightarrow> int \<Rightarrow> real" where
  "pivot_max M N k = Max ((\<lambda>r. cmod (ent M r k)) ` {k..<N})"

text \<open>The exception that the specification calls \<open>SingularSystem\<close>.\<close>

definition SingularSystem :: error where
  "SingularSystem = runtime_error ''Could not solve equation system (Gaussian elimination failed)''"

text \<open>
  The matrix after the elimination of the columns \<open>0, ..., k - 1\<close>: the first \<open>k\<close>
  iterations of the loop over the columns.
\<close>

definition eliminated :: "int \<Rightarrow> complex matrix \<Rightarrow> error + complex matrix" where
  "eliminated k mat = for_loop 0 k (elimination_step (m_h mat)) mat"



text \<open>
  Two systems in two unknowns: \<open>x + y = 3, 2x + y = 4\<close>, with the solution \<open>(1, 2)\<close>, and
  \<open>x + y = 1, x + y = 2\<close>, which is singular.
\<close>

definition regular_system :: "complex matrix" where
  "regular_system = \<lparr>m_matrix = [1, 1, 3, 2, 1, 4], m_w = 3, m_h = 2\<rparr>"

definition singular_system :: "complex matrix" where
  "singular_system = \<lparr>m_matrix = [1, 1, 1, 1, 1, 2], m_w = 3, m_h = 2\<rparr>"

section \<open>Loops and matrices: basic facts\<close>

lemma bind_err_Inr [simp]: "bind_err (Inr x) f = f x"
  by (simp add: bind_err_def)

lemma bind_err_Inl [simp]: "bind_err (Inl e) f = Inl e"
  by (simp add: bind_err_def)

lemma for_loop_rule:
  assumes "i \<le> n" and "I i s"
    and "\<And>j t. i \<le> j \<Longrightarrow> j < n \<Longrightarrow> I j t \<Longrightarrow> \<exists>t'. body j t = Inr t' \<and> I (j + 1) t'"
  shows "\<exists>s'. for_loop i n body s = Inr s' \<and> I n s'"
  using assms
proof (induction i n body s rule: for_loop.induct)
  case (1 i n body s)
  show ?case
  proof (cases "i < n")
    case True
    from 1(4)[of i s] True 1(3) obtain t where t: "body i s = Inr t" "I (i + 1) t" by auto
    have "\<exists>s'. for_loop (i + 1) n body t = Inr s' \<and> I n s'"
      using 1(1)[OF True t(1)] True t(2) 1(4) by force
    then show ?thesis using True t(1) by (subst for_loop.simps) simp
  next
    case False
    with 1(2) have "i = n" by simp
    then show ?thesis using 1(3) by (subst for_loop.simps) simp
  qed
qed

lemma for_loop_empty [simp]: "n \<le> i \<Longrightarrow> for_loop i n body s = Inr s"
  by (subst for_loop.simps) simp

lemma for_loop_step: "i < n \<Longrightarrow> for_loop i n body s = bind_err (body i s) (for_loop (i + 1) n body)"
  by (subst for_loop.simps) (simp add: bind_err_def)

lemma for_loop_split:
  "i \<le> k \<Longrightarrow> k \<le> n \<Longrightarrow> for_loop i n body s = bind_err (for_loop i k body s) (for_loop k n body)"
proof (induction i k body s rule: for_loop.induct)
  case (1 i k body s)
  show ?case
  proof (cases "i < k")
    case True
    then have "i < n" using 1 by simp
    show ?thesis
    proof (cases "body i s")
      case (Inl e)
      then show ?thesis using True \<open>i < n\<close> by (simp add: for_loop_step)
    next
      case (Inr t)
      then show ?thesis using True \<open>i < n\<close> 1(1)[OF True Inr] 1(3) by (simp add: for_loop_step)
    qed
  next
    case False
    then show ?thesis using 1 by simp
  qed
qed

lemma idx_inj:
  fixes r c r' c' w :: int
  assumes "0 \<le> r" "0 \<le> c" "c < w" "0 \<le> r'" "0 \<le> c'" "c' < w"
  shows "(nat (r * w + c) = nat (r' * w + c')) \<longleftrightarrow> (r = r' \<and> c = c')"
proof -
  have w: "0 < w" using assms by simp
  have a: "(r * w + c) div w = r" "(r * w + c) mod w = c" using assms w by simp_all
  have b: "(r' * w + c') div w = r'" "(r' * w + c') mod w = c'" using assms w by simp_all
  have "0 \<le> r * w + c" "0 \<le> r' * w + c'" using assms w by simp_all
  then have "(nat (r * w + c) = nat (r' * w + c')) \<longleftrightarrow> r * w + c = r' * w + c'" by (rule eq_nat_nat_iff)
  also have "\<dots> \<longleftrightarrow> (r = r' \<and> c = c')" using a b by metis
  finally show ?thesis .
qed

lemma idx_bound:
  fixes r c w h :: int
  assumes "0 \<le> r" "r < h" "0 \<le> c" "c < w"
  shows "nat (r * w + c) < nat (w * h)"
proof -
  have "r * w + c < r * w + w" using assms by simp
  also have "\<dots> = (r + 1) * w" by (simp add: algebra_simps)
  also have "\<dots> \<le> h * w" using assms by (intro mult_right_mono) simp_all
  finally have "r * w + c < w * h" by (simp add: mult.commute)
  moreover have "0 \<le> r * w + c" using assms by simp
  ultimately show ?thesis by simp
qed

lemma wf_matrix_new: "0 \<le> h \<Longrightarrow> 0 \<le> w \<Longrightarrow> wf_matrix (matrix_new h w :: 'a::zero matrix)"
  by (simp add: wf_matrix_def matrix_new_def)

lemma dims_matrix_new [simp]: "m_h (matrix_new h w) = h" "m_w (matrix_new h w) = w"
  by (simp_all add: matrix_new_def)

lemma ent_matrix_new:
  "0 \<le> r \<Longrightarrow> r < h \<Longrightarrow> 0 \<le> c \<Longrightarrow> c < w \<Longrightarrow> ent (matrix_new h w) r c = 0"
  using idx_bound[of r h c w] by (simp add: ent_def matrix_new_def)

lemma mat_get_ent:
  "0 \<le> r \<Longrightarrow> r < m_h M \<Longrightarrow> 0 \<le> c \<Longrightarrow> c < m_w M \<Longrightarrow> mat_get M r c = Inr (ent M r c)"
  by (simp add: mat_get_def ent_def)

lemma mat_set_upd:
  "0 \<le> r \<Longrightarrow> r < m_h M \<Longrightarrow> 0 \<le> c \<Longrightarrow> c < m_w M \<Longrightarrow> mat_set M r c v = Inr (mat_upd M r c v)"
  by (simp add: mat_set_def mat_upd_def)

lemma dims_mat_upd [simp]: "m_h (mat_upd M r c v) = m_h M" "m_w (mat_upd M r c v) = m_w M"
  by (simp_all add: mat_upd_def)

lemma wf_mat_upd [simp]: "wf_matrix (mat_upd M r c v) = wf_matrix M"
  by (simp add: mat_upd_def wf_matrix_def)

lemma ent_mat_upd:
  assumes "wf_matrix M" "0 \<le> r" "r < m_h M" "0 \<le> c" "c < m_w M"
    and "0 \<le> r'" "r' < m_h M" "0 \<le> c'" "c' < m_w M"
  shows "ent (mat_upd M r c v) r' c' = (if r' = r \<and> c' = c then v else ent M r' c')"
proof -
  have len: "nat (r' * m_w M + c') < length (m_matrix M)"
    using idx_bound[OF assms(6-9)] assms(1) by (simp add: wf_matrix_def)
  show ?thesis
    using idx_inj[of r c "m_w M" r' c'] assms len
    by (auto simp add: ent_def mat_upd_def nth_list_update)
qed

lemma same_shape_upd: "same_shape M' M \<Longrightarrow> same_shape (mat_upd M' r c v) M"
  by (simp add: same_shape_def)

lemma mat_replace_ok:
  assumes wfM: "wf_matrix M" and wfm: "wf_matrix mat"
    and pos: "0 \<le> row" "0 \<le> col" and fit: "row + m_h mat \<le> m_h M" "col + m_w mat \<le> m_w M"
  shows "\<exists>M'. mat_replace M row col mat = Inr M' \<and> same_shape M' M \<and>
     (\<forall>r c. 0 \<le> r \<and> r < m_h M \<and> 0 \<le> c \<and> c < m_w M \<longrightarrow>
        ent M' r c = (if row \<le> r \<and> r < row + m_h mat \<and> col \<le> c \<and> c < col + m_w mat
                      then ent mat (r - row) (c - col) else ent M r c))"
proof -
  define inner where "inner = (\<lambda>y. for_loop 0 (m_w mat)
             (\<lambda>x M'. bind_err (mat_get mat y x) (mat_set M' (y + row) (x + col))))"
  define J where "J = (\<lambda>(y::int) (x::int) M'. same_shape M' M \<and>
     (\<forall>r c. 0 \<le> r \<and> r < m_h M \<and> 0 \<le> c \<and> c < m_w M \<longrightarrow>
        ent M' r c = (if (row \<le> r \<and> r < row + y \<and> col \<le> c \<and> c < col + m_w mat)
                         \<or> (r = row + y \<and> col \<le> c \<and> c < col + x)
                      then ent mat (r - row) (c - col) else ent M r c)))"
  have wh: "0 \<le> m_w mat" "0 \<le> m_h mat" using wfm by (simp_all add: wf_matrix_def)
  have inner_ok: "\<exists>t'. inner y t = Inr t' \<and> J (y + 1) 0 t'" if y: "0 \<le> y" "y < m_h mat" and t: "J y 0 t" for y t
  proof -
    have "\<exists>t'. for_loop 0 (m_w mat)
             (\<lambda>x M'. bind_err (mat_get mat y x) (mat_set M' (y + row) (x + col))) t = Inr t' \<and> J y (m_w mat) t'"
    proof (rule for_loop_rule[where I = "J y"])
      show "0 \<le> m_w mat" by (rule wh)
      show "J y 0 t" by (rule t)
    next
      fix x u assume x: "0 \<le> x" "x < m_w mat" and u: "J y x u"
      have sh: "same_shape u M" using u by (simp add: J_def)
      then have wfu: "wf_matrix u" and du: "m_h u = m_h M" "m_w u = m_w M" by (simp_all add: same_shape_def)
      have rng: "0 \<le> y + row" "y + row < m_h u" "0 \<le> x + col" "x + col < m_w u"
        using x y pos fit du by simp_all
      have step: "bind_err (mat_get mat y x) (mat_set u (y + row) (x + col))
           = Inr (mat_upd u (y + row) (x + col) (ent mat y x))"
        using x y rng by (simp add: mat_get_ent mat_set_upd)
      have "J y (x + 1) (mat_upd u (y + row) (x + col) (ent mat y x))"
        unfolding J_def
      proof (intro conjI allI impI)
        show "same_shape (mat_upd u (y + row) (x + col) (ent mat y x)) M"
          using sh by (rule same_shape_upd)
      next
        fix r c assume rc: "0 \<le> r \<and> r < m_h M \<and> 0 \<le> c \<and> c < m_w M"
        have old: "ent u r c = (if (row \<le> r \<and> r < row + y \<and> col \<le> c \<and> c < col + m_w mat)
                         \<or> (r = row + y \<and> col \<le> c \<and> c < col + x)
                      then ent mat (r - row) (c - col) else ent M r c)"
          using u rc by (simp add: J_def)
        have "ent (mat_upd u (y + row) (x + col) (ent mat y x)) r c
            = (if r = y + row \<and> c = x + col then ent mat y x else ent u r c)"
          using ent_mat_upd[OF wfu rng, of r c] rc du by simp
        then show "ent (mat_upd u (y + row) (x + col) (ent mat y x)) r c =
           (if (row \<le> r \<and> r < row + y \<and> col \<le> c \<and> c < col + m_w mat)
                         \<or> (r = row + y \<and> col \<le> c \<and> c < col + (x + 1))
                      then ent mat (r - row) (c - col) else ent M r c)"
          using old x y by (auto simp add: algebra_simps)
      qed
      then show "\<exists>t'. bind_err (mat_get mat y x) (mat_set u (y + row) (x + col)) = Inr t' \<and> J y (x + 1) t'"
        using step by simp
    qed
    then obtain t' where t': "inner y t = Inr t'" "J y (m_w mat) t'" by (auto simp add: inner_def)
    have "J (y + 1) 0 t'" using t'(2) y unfolding J_def by (auto simp add: algebra_simps)
    then show ?thesis using t'(1) by simp
  qed
  have "\<exists>M'. for_loop 0 (m_h mat) inner M = Inr M' \<and> J (m_h mat) 0 M'"
  proof (rule for_loop_rule[where I = "\<lambda>y. J y 0"])
    show "0 \<le> m_h mat" by (rule wh)
    show "J 0 0 M" using wfM by (auto simp add: J_def same_shape_def)
  next
    fix j t assume "0 \<le> j" "j < m_h mat" "J j 0 t"
    then show "\<exists>t'. inner j t = Inr t' \<and> J (j + 1) 0 t'" by (rule inner_ok)
  qed
  then obtain M' where M': "for_loop 0 (m_h mat) inner M = Inr M'" "J (m_h mat) 0 M'" by auto
  have "mat_replace M row col mat = Inr M'"
    using M'(1) pos fit by (simp add: mat_replace_def inner_def)
  moreover have "same_shape M' M" using M'(2) by (simp add: J_def)
  moreover have "\<forall>r c. 0 \<le> r \<and> r < m_h M \<and> 0 \<le> c \<and> c < m_w M \<longrightarrow>
        ent M' r c = (if row \<le> r \<and> r < row + m_h mat \<and> col \<le> c \<and> c < col + m_w mat
                      then ent mat (r - row) (c - col) else ent M r c)"
    using M'(2) unfolding J_def by auto
  ultimately show ?thesis by blast
qed

section \<open>Matrix operations: transpose and joins\<close>

lemma mat_modify_upd:
  "0 \<le> r \<Longrightarrow> r < m_h M \<Longrightarrow> 0 \<le> c \<Longrightarrow> c < m_w M \<Longrightarrow>
   mat_modify M r c f = Inr (mat_upd M r c (f (ent M r c)))"
  by (simp add: mat_modify_def mat_get_ent mat_set_upd)

lemma mat_transpose_ok:
  assumes wfM: "wf_matrix M"
  shows "\<exists>T. mat_transpose M = Inr T \<and> wf_matrix T \<and> m_h T = m_w M \<and> m_w T = m_h M \<and>
     (\<forall>r c. 0 \<le> r \<and> r < m_w M \<and> 0 \<le> c \<and> c < m_h M \<longrightarrow> ent T r c = ent M c r)"
proof -
  define T0 :: "'a matrix" where "T0 = matrix_new (m_w M) (m_h M)"
  have wh: "0 \<le> m_w M" "0 \<le> m_h M" using wfM by (simp_all add: wf_matrix_def)
  have wfT0: "wf_matrix T0" unfolding T0_def using wh by (intro wf_matrix_new)
  define J where "J = (\<lambda>(y::int) (x::int) T. same_shape T T0 \<and>
     (\<forall>r c. 0 \<le> r \<and> r < m_w M \<and> 0 \<le> c \<and> c < m_h M \<longrightarrow>
        ent T r c = (if c < y \<or> (c = y \<and> r < x) then ent M c r else 0)))"
  define inner where "inner = (\<lambda>y. for_loop 0 (m_w M)
       (\<lambda>x mat. bind_err (mat_get M y x) (mat_set mat x y)))"
  have inner_ok: "\<exists>t'. inner y t = Inr t' \<and> J (y + 1) 0 t'"
    if y: "0 \<le> y" "y < m_h M" and t: "J y 0 t" for y t
  proof -
    have "\<exists>t'. for_loop 0 (m_w M) (\<lambda>x mat. bind_err (mat_get M y x) (mat_set mat x y)) t = Inr t'
            \<and> J y (m_w M) t'"
    proof (rule for_loop_rule[where I = "J y"])
      show "0 \<le> m_w M" by (rule wh)
      show "J y 0 t" by (rule t)
    next
      fix x u assume x: "0 \<le> x" "x < m_w M" and u: "J y x u"
      have sh: "same_shape u T0" using u by (simp add: J_def)
      then have wfu: "wf_matrix u" and du: "m_h u = m_w M" "m_w u = m_h M"
        by (simp_all add: same_shape_def T0_def)
      have rng: "0 \<le> x" "x < m_h u" "0 \<le> y" "y < m_w u" using x y du by simp_all
      have step: "bind_err (mat_get M y x) (mat_set u x y) = Inr (mat_upd u x y (ent M y x))"
        using x y rng by (simp add: mat_get_ent mat_set_upd)
      have "J y (x + 1) (mat_upd u x y (ent M y x))"
        unfolding J_def
      proof (intro conjI allI impI)
        show "same_shape (mat_upd u x y (ent M y x)) T0" using sh by (rule same_shape_upd)
      next
        fix r c assume rc: "0 \<le> r \<and> r < m_w M \<and> 0 \<le> c \<and> c < m_h M"
        have old: "ent u r c = (if c < y \<or> (c = y \<and> r < x) then ent M c r else 0)"
          using u rc by (simp add: J_def)
        have "ent (mat_upd u x y (ent M y x)) r c = (if r = x \<and> c = y then ent M y x else ent u r c)"
          using ent_mat_upd[OF wfu rng, of r c] rc du by simp
        then show "ent (mat_upd u x y (ent M y x)) r c =
            (if c < y \<or> (c = y \<and> r < x + 1) then ent M c r else 0)"
          using old by auto
      qed
      then show "\<exists>t'. bind_err (mat_get M y x) (mat_set u x y) = Inr t' \<and> J y (x + 1) t'"
        using step by simp
    qed
    then obtain t' where t': "inner y t = Inr t'" "J y (m_w M) t'" by (auto simp add: inner_def)
    have "J (y + 1) 0 t'" using t'(2) y unfolding J_def by auto
    then show ?thesis using t'(1) by simp
  qed
  have "\<exists>T. for_loop 0 (m_h M) inner T0 = Inr T \<and> J (m_h M) 0 T"
  proof (rule for_loop_rule[where I = "\<lambda>y. J y 0"])
    show "0 \<le> m_h M" by (rule wh)
    show "J 0 0 T0" using wfT0 by (auto simp add: J_def same_shape_def T0_def ent_matrix_new)
  next
    fix j t assume "0 \<le> j" "j < m_h M" "J j 0 t"
    then show "\<exists>t'. inner j t = Inr t' \<and> J (j + 1) 0 t'" by (rule inner_ok)
  qed
  then obtain T where T: "for_loop 0 (m_h M) inner T0 = Inr T" "J (m_h M) 0 T" by auto
  have "mat_transpose M = Inr T" using T(1) by (simp add: mat_transpose_def inner_def T0_def)
  moreover have "wf_matrix T" "m_h T = m_w M" "m_w T = m_h M"
    using T(2) by (simp_all add: J_def same_shape_def T0_def)
  moreover have "\<forall>r c. 0 \<le> r \<and> r < m_w M \<and> 0 \<le> c \<and> c < m_h M \<longrightarrow> ent T r c = ent M c r"
    using T(2) unfolding J_def by auto
  ultimately show ?thesis by blast
qed

lemma join_matrices_horizontal_ok:
  assumes "wf_matrix l" "wf_matrix r" "m_h l = m_h r"
  shows "\<exists>J. join_matrices_horizontal l r = Inr J \<and> wf_matrix J \<and> m_h J = m_h l
     \<and> m_w J = m_w l + m_w r
     \<and> (\<forall>i j. 0 \<le> i \<and> i < m_h l \<and> 0 \<le> j \<and> j < m_w l + m_w r \<longrightarrow>
          ent J i j = (if j < m_w l then ent l i j else ent r i (j - m_w l)))"
proof -
  define Z :: "'a matrix" where "Z = matrix_new (m_h l) (m_w l + m_w r)"
  have dims: "0 \<le> m_w l" "0 \<le> m_h l" "0 \<le> m_w r" using assms by (simp_all add: wf_matrix_def)
  have wfZ: "wf_matrix Z" unfolding Z_def using dims by (intro wf_matrix_new) simp_all
  have dZ: "m_h Z = m_h l" "m_w Z = m_w l + m_w r" by (simp_all add: Z_def)
  from mat_replace_ok[OF wfZ assms(1), of 0 0] dims dZ
  obtain M1 where M1: "mat_replace Z 0 0 l = Inr M1" "same_shape M1 Z"
    "\<forall>i j. 0 \<le> i \<and> i < m_h Z \<and> 0 \<le> j \<and> j < m_w Z \<longrightarrow>
        ent M1 i j = (if 0 \<le> i \<and> i < 0 + m_h l \<and> 0 \<le> j \<and> j < 0 + m_w l
                      then ent l (i - 0) (j - 0) else ent Z i j)"
    by auto
  have wfM1: "wf_matrix M1" and dM1: "m_h M1 = m_h l" "m_w M1 = m_w l + m_w r"
    using M1(2) dZ by (simp_all add: same_shape_def)
  from mat_replace_ok[OF wfM1 assms(2), of 0 "m_w l"] dims dM1 assms(3)
  obtain M2 where M2: "mat_replace M1 0 (m_w l) r = Inr M2" "same_shape M2 M1"
    "\<forall>i j. 0 \<le> i \<and> i < m_h M1 \<and> 0 \<le> j \<and> j < m_w M1 \<longrightarrow>
        ent M2 i j = (if 0 \<le> i \<and> i < 0 + m_h r \<and> m_w l \<le> j \<and> j < m_w l + m_w r
                      then ent r (i - 0) (j - m_w l) else ent M1 i j)"
    by auto
  have "join_matrices_horizontal l r = Inr M2"
    using M1(1) M2(1) assms(3) by (simp add: join_matrices_horizontal_def Z_def)
  moreover have "wf_matrix M2" "m_h M2 = m_h l" "m_w M2 = m_w l + m_w r"
    using M2(2) dM1 by (simp_all add: same_shape_def)
  moreover have "\<forall>i j. 0 \<le> i \<and> i < m_h l \<and> 0 \<le> j \<and> j < m_w l + m_w r \<longrightarrow>
          ent M2 i j = (if j < m_w l then ent l i j else ent r i (j - m_w l))"
    using M1(3) M2(3) dM1 dZ assms(3) by auto
  ultimately show ?thesis by blast
qed

lemma join_matrices_vertical_ok:
  assumes "wf_matrix u" "wf_matrix d" "m_w u = m_w d"
  shows "\<exists>J. join_matrices_vertical u d = Inr J \<and> wf_matrix J \<and> m_h J = m_h u + m_h d
     \<and> m_w J = m_w u
     \<and> (\<forall>i j. 0 \<le> i \<and> i < m_h u + m_h d \<and> 0 \<le> j \<and> j < m_w u \<longrightarrow>
          ent J i j = (if i < m_h u then ent u i j else ent d (i - m_h u) j))"
proof -
  define Z :: "'a matrix" where "Z = matrix_new (m_h u + m_h d) (m_w u)"
  have dims: "0 \<le> m_w u" "0 \<le> m_h u" "0 \<le> m_h d" using assms by (simp_all add: wf_matrix_def)
  have wfZ: "wf_matrix Z" unfolding Z_def using dims by (intro wf_matrix_new) simp_all
  have dZ: "m_h Z = m_h u + m_h d" "m_w Z = m_w u" by (simp_all add: Z_def)
  from mat_replace_ok[OF wfZ assms(1), of 0 0] dims dZ
  obtain M1 where M1: "mat_replace Z 0 0 u = Inr M1" "same_shape M1 Z"
    "\<forall>i j. 0 \<le> i \<and> i < m_h Z \<and> 0 \<le> j \<and> j < m_w Z \<longrightarrow>
        ent M1 i j = (if 0 \<le> i \<and> i < 0 + m_h u \<and> 0 \<le> j \<and> j < 0 + m_w u
                      then ent u (i - 0) (j - 0) else ent Z i j)"
    by auto
  have wfM1: "wf_matrix M1" and dM1: "m_h M1 = m_h u + m_h d" "m_w M1 = m_w u"
    using M1(2) dZ by (simp_all add: same_shape_def)
  from mat_replace_ok[OF wfM1 assms(2), of "m_h u" 0] dims dM1 assms(3)
  obtain M2 where M2: "mat_replace M1 (m_h u) 0 d = Inr M2" "same_shape M2 M1"
    "\<forall>i j. 0 \<le> i \<and> i < m_h M1 \<and> 0 \<le> j \<and> j < m_w M1 \<longrightarrow>
        ent M2 i j = (if m_h u \<le> i \<and> i < m_h u + m_h d \<and> 0 \<le> j \<and> j < 0 + m_w d
                      then ent d (i - m_h u) (j - 0) else ent M1 i j)"
    by auto
  have "join_matrices_vertical u d = Inr M2"
    using M1(1) M2(1) assms(3) by (simp add: join_matrices_vertical_def Z_def)
  moreover have "wf_matrix M2" "m_h M2 = m_h u + m_h d" "m_w M2 = m_w u"
    using M2(2) dM1 by (simp_all add: same_shape_def)
  moreover have "\<forall>i j. 0 \<le> i \<and> i < m_h u + m_h d \<and> 0 \<le> j \<and> j < m_w u \<longrightarrow>
          ent M2 i j = (if i < m_h u then ent u i j else ent d (i - m_h u) j)"
    using M1(3) M2(3) dM1 dZ assms(3) by auto
  ultimately show ?thesis by blast
qed

section \<open>Evaluation of loops on concrete bounds\<close>

lemma for_loop_unfold:
  "for_loop i n body s = (if i < n then bind_err (body i s) (for_loop (i + 1) n body) else Inr s)"
  by (subst for_loop.simps) (simp add: bind_err_def)

lemma for_loop_down_unfold:
  "for_loop_down i body s =
     (if i \<ge> 0 then bind_err (body i s) (for_loop_down (i - 1) body) else Inr s)"
  by (subst for_loop_down.simps) (simp add: bind_err_def)

section \<open>The node map\<close>

lemma add_component_nodes_fold:
  "add_component_nodes entry st = fold add_node (component_nodes (snd (snd entry))) st"
  by (cases "snd (snd entry)") (simp_all add: add_component_nodes_def)

lemma fold_add_component_nodes:
  "fold add_component_nodes circ st = fold add_node (circuit_nodes circ) st"
  by (induction circ arbitrary: st) (simp_all add: circuit_nodes_def add_component_nodes_fold)

lemma set_first_encounters: "set (first_encounters xs) = set xs - {0}"
  by (induction xs) auto

lemma distinct_first_encounters: "distinct (first_encounters xs)"
  by (induction xs) (auto simp add: set_first_encounters)

lemma first_encounters_snoc:
  "first_encounters (xs @ [x]) =
     (if x = 0 \<or> x \<in> set xs then first_encounters xs else first_encounters xs @ [x])"
proof (induction xs)
  case Nil
  then show ?case by simp
next
  case (Cons a xs)
  then show ?case by auto
qed

lemma node_map_inv_init: "node_map_inv [] (Map.empty(0 \<mapsto> - 1), 0)"
  by (auto simp add: node_map_inv_def dom_def)

lemma node_map_inv_step:
  assumes "node_map_inv xs st"
  shows "node_map_inv (xs @ [x]) (add_node x st)"
proof -
  obtain m c where st: "st = (m, c)" by force
  from assms have inv: "c = int (length (first_encounters xs))" "m 0 = Some (- 1)"
    "dom m = insert 0 (set xs)"
    "\<forall>i < length (first_encounters xs). m (first_encounters xs ! i) = Some (int i)"
    by (simp_all add: node_map_inv_def st)
  show ?thesis
  proof (cases "m x")
    case (Some v)
    then have "x \<in> dom m" by auto
    then have "x = 0 \<or> x \<in> set xs" using inv(3) by auto
    then show ?thesis using inv Some st
      by (auto simp add: node_map_inv_def add_node_def first_encounters_snoc)
  next
    case None
    then have "x \<notin> dom m" by auto
    then have x: "x \<noteq> 0" "x \<notin> set xs" using inv(3) by auto
    then have fe: "first_encounters (xs @ [x]) = first_encounters xs @ [x]"
      by (simp add: first_encounters_snoc)
    have notin: "x \<notin> set (first_encounters xs)" using x by (simp add: set_first_encounters)
    have "add_node x st = (m(x \<mapsto> c), c + 1)"
      using st None by (simp add: add_node_def)
    moreover have "node_map_inv (xs @ [x]) (m(x \<mapsto> c), c + 1)"
      unfolding node_map_inv_def fe
    proof (intro conjI allI impI)
      fix i assume i: "i < length (first_encounters xs @ [x])"
      show "fst (m(x \<mapsto> c), c + 1) ((first_encounters xs @ [x]) ! i) = Some (int i)"
      proof (cases "i < length (first_encounters xs)")
        case True
        then have "first_encounters xs ! i \<noteq> x" using notin nth_mem by metis
        then show ?thesis using True inv(4) by (simp add: nth_append)
      next
        case False
        then have "i = length (first_encounters xs)" using i by simp
        then show ?thesis using inv(1) by (simp add: nth_append)
      qed
    qed (use inv x in auto)
    ultimately show ?thesis by simp
  qed
qed

lemma fold_add_node_snoc: "fold add_node (xs @ [x]) st = add_node x (fold add_node xs st)"
  by simp

lemma node_map_inv_fold:
  "node_map_inv xs (fold add_node xs (Map.empty(0 \<mapsto> - 1), 0))"
proof (induction xs rule: rev_induct)
  case Nil
  show ?case unfolding fold.simps id_apply by (rule node_map_inv_init)
next
  case (snoc x xs)
  show ?case unfolding fold_add_node_snoc by (rule node_map_inv_step[OF snoc])
qed

lemma update_node_map_inv:
  "node_map_inv (circuit_nodes (m_circuit s))
     (fold add_component_nodes (m_circuit s) (Map.empty(0 \<mapsto> - 1), 0))"
  unfolding fold_add_component_nodes by (rule node_map_inv_fold)

lemma dom_update_node_map:
  "dom (m_node_map (update_node_map s)) = insert 0 (set (circuit_nodes (m_circuit s)))"
proof -
  have "m_node_map (update_node_map s) =
          fst (fold add_component_nodes (m_circuit s) (Map.empty(0 \<mapsto> - 1), 0))"
    by (simp add: update_node_map_def)
  then show ?thesis using update_node_map_inv[of s] unfolding node_map_inv_def by simp
qed

text \<open>
  Claim C7. After \<open>update_node_map\<close> the node map sends label 0 to \<open>-1\<close>; its domain is
  label 0 together with the labels of the circuit; the other labels, taken in the order in
  which the walk over the circuit first meets them, get the indices 0, 1, 2, ... . So each
  of them has an index in \<open>[0, N)\<close>, where \<open>N\<close> is the number of distinct non-ground
  labels, and different labels have different indices.
\<close>

theorem update_node_map_first_encounter:
  "let labels = circuit_nodes (m_circuit s);
       node_map = m_node_map (update_node_map s);
       order = first_encounters labels;
       N = card (set labels - {0})
   in node_map 0 = Some (- 1)
      \<and> dom node_map = insert 0 (set labels)
      \<and> distinct order \<and> set order = set labels - {0} \<and> length order = N
      \<and> (\<forall>i < length order. node_map (order ! i) = Some (int i))
      \<and> (\<forall>l \<in> set labels - {0}. \<exists>i < N. node_map l = Some (int i))
      \<and> inj_on node_map (set labels - {0})"
proof -
  define labels where "labels = circuit_nodes (m_circuit s)"
  define node_map where "node_map = m_node_map (update_node_map s)"
  define order where "order = first_encounters labels"
  have inv: "node_map_inv labels (fold add_component_nodes (m_circuit s) (Map.empty(0 \<mapsto> - 1), 0))"
    unfolding labels_def fold_add_component_nodes by (rule node_map_inv_fold)
  have nm: "node_map = fst (fold add_component_nodes (m_circuit s) (Map.empty(0 \<mapsto> - 1), 0))"
    by (simp add: node_map_def update_node_map_def)
  have zero: "node_map 0 = Some (- 1)" and dom: "dom node_map = insert 0 (set labels)"
    and idx: "\<forall>i < length order. node_map (order ! i) = Some (int i)"
    using inv unfolding nm node_map_inv_def order_def by simp_all
  have dist: "distinct order" and set: "set order = set labels - {0}"
    by (simp_all add: order_def distinct_first_encounters set_first_encounters)
  have len: "length order = card (set labels - {0})"
    using distinct_card[OF dist] set by simp
  have ex: "\<exists>i < card (set labels - {0}). node_map l = Some (int i)" if "l \<in> set labels - {0}" for l
  proof -
    from that set obtain i where "i < length order" "order ! i = l"
      by (metis in_set_conv_nth)
    then show ?thesis using idx len by auto
  qed
  have inj: "inj_on node_map (set labels - {0})"
  proof (rule inj_onI)
    fix l l' assume l: "l \<in> set labels - {0}" "l' \<in> set labels - {0}" "node_map l = node_map l'"
    from l(1) set obtain i where i: "i < length order" "order ! i = l" by (metis in_set_conv_nth)
    from l(2) set obtain j where j: "j < length order" "order ! j = l'" by (metis in_set_conv_nth)
    from idx i j l(3) have "i = j" by auto
    then show "l = l'" using i j by simp
  qed
  show ?thesis
    unfolding Let_def labels_def[symmetric] node_map_def[symmetric] order_def[symmetric]
    using zero dom dist set len idx ex inj by blast
qed

lemma first_encounters_divider: "first_encounters (circuit_nodes divider) = [5, 3]"
  by (simp add: divider_def circuit_nodes_def)

theorem update_node_map_first_encounter_witness:
  "m_node_map (circuit_solver_new divider) 0 = Some (- 1)
   \<and> m_node_map (circuit_solver_new divider) 5 = Some 0
   \<and> m_node_map (circuit_solver_new divider) 3 = Some 1
   \<and> dom (m_node_map (circuit_solver_new divider)) = {0, 3, 5}"
proof -
  let ?s = "\<lparr>m_circuit = divider, m_node_map = Map.empty, m_problem = empty_problem,
        m_solution = None, m_solution_omega = None\<rparr>"
  have labels: "set (circuit_nodes divider) = {0, 3, 5}"
    by (auto simp add: divider_def circuit_nodes_def)
  from update_node_map_first_encounter[of ?s]
  have zero: "m_node_map (update_node_map ?s) 0 = Some (- 1)"
    and dom: "dom (m_node_map (update_node_map ?s)) = insert 0 (set (circuit_nodes divider))"
    and idx: "\<forall>i < 2. m_node_map (update_node_map ?s) ([5, 3] ! i) = Some (int i)"
    by (simp_all add: Let_def first_encounters_divider)
  from idx[rule_format, of 0] idx[rule_format, of 1]
  have "m_node_map (update_node_map ?s) 5 = Some 0"
    and "m_node_map (update_node_map ?s) 3 = Some 1"
    by simp_all
  with zero dom show ?thesis
    unfolding circuit_solver_new_def labels by auto
qed

section \<open>Error handling of \<open>circuit_solver::solve\<close>\<close>

lemma clear_problem:
  "p\<lparr>admittances := [], voltage_sources := [], current_sources := [], opamps := []\<rparr> =
     empty_problem"
  by (cases p) (simp add: empty_problem_def)

lemma solve_cases:
  "solve omega s =
     (case lower_circuit omega (m_node_map s) (m_circuit s) empty_problem of
        (Some e, prob) \<Rightarrow> (Some e, s\<lparr>m_solution_omega := Some omega, m_problem := prob\<rparr>)
      | (None, prob) \<Rightarrow>
          (case mna_solve prob of
             Inr sol \<Rightarrow> (None, s\<lparr>m_solution_omega := Some omega, m_problem := prob,
                                  m_solution := Some sol\<rparr>)
           | Inl (runtime_error what) \<Rightarrow>
               (Some (runtime_error (''Could not compute operating point - reason: '' @ what)),
                s\<lparr>m_solution_omega := Some omega, m_problem := prob\<rparr>)
           | Inl (out_of_range what) \<Rightarrow>
               (Some (out_of_range what), s\<lparr>m_solution_omega := Some omega, m_problem := prob\<rparr>)))"
  by (simp add: solve_def clear_problem Let_def
      split: prod.splits option.splits sum.splits error.splits)

lemma solve_keeps_circuit:
  "m_circuit (snd (solve omega s)) = m_circuit s" "m_node_map (snd (solve omega s)) = m_node_map s"
  by (simp_all add: solve_cases split: prod.splits option.splits sum.splits error.splits)

subsection \<open>A voltage source with both terminals on ground: a singular system\<close>

lemma node_map_shorted_source:
  "m_node_map (circuit_solver_new shorted_source) = Map.empty(0 \<mapsto> - 1)"
  by (simp add: circuit_solver_new_def shorted_source_def update_node_map_def
      add_component_nodes_def add_node_def)

lemma circuit_solver_new_circuit [simp]: "m_circuit (circuit_solver_new circ) = circ"
  by (simp add: circuit_solver_new_def update_node_map_def)

lemma lower_shorted_source:
  "lower_circuit omega (Map.empty(0 \<mapsto> - 1)) shorted_source empty_problem =
     (None, \<lparr>admittances = [], voltage_sources = [\<lparr>vs_nodes = (- 1, - 1), vs_V = 1\<rparr>],
             current_sources = [], opamps = []\<rparr>)"
  by (simp add: shorted_source_def empty_problem_def lower_component_def map_node_pair_def
      node_map_at_def)

lemma mna_solve_shorted_source:
  "mna_solve \<lparr>admittances = [], voltage_sources = [\<lparr>vs_nodes = (- 1, - 1), vs_V = 1\<rparr>],
             current_sources = [], opamps = []\<rparr> =
     Inl (runtime_error ''Could not solve equation system (Gaussian elimination failed)'')"
  apply (simp add: mna_solve_def get_max_node_def compute_matrix_A_def compute_matrix_z_def Let_def)
  apply (simp add: for_loop_unfold stamp_voltage_source_def mat_transpose_def matrix_new_def
      mat_set_def mat_get_def join_matrices_horizontal_def join_matrices_vertical_def
      mat_replace_def gaussian_elimination_def elimination_step_def find_pivot_def)
  done

text \<open>
  Claim C8, as amended. When the MNA solve of the lowered problem fails with a
  \<open>std::runtime_error\<close> (the singular system is one), \<open>solve\<close> throws a
  \<open>std::runtime_error\<close> whose message is the fixed prefix
  \<open>Could not compute operating point - reason: \<close> followed by the message of the MNA
  solver. Nothing else goes into the message.
\<close>

theorem solve_wraps_runtime_error:
  assumes "lower_circuit omega (m_node_map s) (m_circuit s) empty_problem = (None, prob)"
    and "mna_solve prob = Inl (runtime_error what)"
  shows "fst (solve omega s) =
           Some (runtime_error (''Could not compute operating point - reason: '' @ what))"
  using assms by (simp add: solve_cases)

theorem solve_wraps_runtime_error_witness:
  "fst (solve 5 (circuit_solver_new shorted_source)) =
     Some (runtime_error (''Could not compute operating point - reason: '' @
                          ''Could not solve equation system (Gaussian elimination failed)''))"
  using solve_wraps_runtime_error[of 5 "circuit_solver_new shorted_source",
      OF _ mna_solve_shorted_source]
  by (simp only: node_map_shorted_source circuit_solver_new_circuit lower_shorted_source)

text \<open>
  Claim C8 as stated fails: at \<open>omega = 5\<close> the singular circuit makes \<open>solve\<close> throw
  a message that is the same as at \<open>omega = 7\<close> and in which the digit 5 does not occur.
\<close>

theorem solve_message_without_omega:
  "fst (solve 5 (circuit_solver_new shorted_source)) =
     Some (runtime_error ''Could not compute operating point - reason: Could not solve equation system (Gaussian elimination failed)'')
   \<and> fst (solve 7 (circuit_solver_new shorted_source)) =
       fst (solve 5 (circuit_solver_new shorted_source))
   \<and> CHR ''5'' \<notin> set ''Could not compute operating point - reason: Could not solve equation system (Gaussian elimination failed)''"
  by (simp add: solve_cases node_map_shorted_source lower_shorted_source
      mna_solve_shorted_source)

subsection \<open>A capacitor fed by a current source: solvable at AC, singular at DC\<close>

lemma node_map_charged_capacitor:
  "m_node_map (circuit_solver_new charged_capacitor) = [0 \<mapsto> - 1, 1 \<mapsto> 0]"
  by (simp add: circuit_solver_new_def charged_capacitor_def update_node_map_def
      add_component_nodes_def add_node_def)

lemma lower_charged_capacitor:
  "lower_circuit omega [0 \<mapsto> - 1, 1 \<mapsto> 0] charged_capacitor empty_problem =
     (None, \<lparr>admittances = [\<lparr>adm_nodes = (0, - 1), adm_Y = \<i> * complex_of_real omega\<rparr>],
             voltage_sources = [],
             current_sources = [\<lparr>cs_nodes = (- 1, 0), cs_I = 1\<rparr>], opamps = []\<rparr>)"
  by (simp add: charged_capacitor_def empty_problem_def lower_component_def map_node_pair_def
      node_map_at_def capacitor_admittance_def)

lemma gaussian_elimination_singular_1:
  "gaussian_elimination \<lparr>m_matrix = [0, - 1], m_w = 2, m_h = 1\<rparr> =
     Inl (runtime_error ''Could not solve equation system (Gaussian elimination failed)'')"
  by (simp add: for_loop_unfold gaussian_elimination_def elimination_step_def find_pivot_def
      mat_get_def)

lemma gaussian_elimination_regular_1:
  "gaussian_elimination \<lparr>m_matrix = [\<i>, - 1], m_w = 2, m_h = 1\<rparr> =
     Inr \<lparr>m_matrix = [\<i>], m_w = 1, m_h = 1\<rparr>"
  apply (simp add: for_loop_unfold gaussian_elimination_def elimination_step_def find_pivot_def
      mat_get_def swap_rows_def mat_set_def eliminate_below_def)
  apply (simp add: for_loop_down_unfold back_substitution_step_def for_loop_unfold mat_get_def
      mat_set_def matrix_new_def)
  done

lemma mna_solve_charged_capacitor:
  "mna_solve \<lparr>admittances = [\<lparr>adm_nodes = (0, - 1), adm_Y = y\<rparr>], voltage_sources = [],
             current_sources = [\<lparr>cs_nodes = (- 1, 0), cs_I = 1\<rparr>], opamps = []\<rparr> =
     bind_err (gaussian_elimination \<lparr>m_matrix = [y, - 1], m_w = 2, m_h = 1\<rparr>) (\<lambda>x.
       Inr \<lparr>m_solution_matrix = x, m_node_count = 1, m_voltage_source_count = 0\<rparr>)"
  apply (simp add: mna_solve_def get_max_node_def compute_matrix_A_def compute_matrix_z_def Let_def)
  apply (simp add: for_loop_unfold stamp_admittance_def stamp_current_source_def mat_modify_def
      mat_transpose_def matrix_new_def mat_set_def mat_get_def join_matrices_horizontal_def
      join_matrices_vertical_def mat_replace_def eval_nat_numeral)
  done

text \<open>
  Claim C10. \<open>solve\<close> stores the frequency before it lowers and solves. So when a solve
  at \<open>omega1\<close> succeeds and a later solve at \<open>omega2\<close> throws, the stored solution is
  still the one computed at \<open>omega1\<close>, while \<open>get_solution_omega\<close> returns \<open>omega2\<close>.
\<close>

theorem solve_failure_keeps_solution:
  assumes "solve omega1 s0 = (None, s1)" and "solve omega2 s1 = (Some e, s2)"
  shows "\<exists>sol. mna_solve (m_problem s1) = Inr sol \<and> get_solution s1 = Some sol
           \<and> get_solution_omega s1 = Some omega1
           \<and> get_solution s2 = Some sol \<and> get_solution_omega s2 = Some omega2"
  using assms
  by (auto simp add: solve_cases get_solution_def get_solution_omega_def
      split: prod.splits option.splits sum.splits error.splits)

lemma charged_capacitor_ac_ok: "fst (solve 1 (circuit_solver_new charged_capacitor)) = None"
  by (simp add: solve_cases node_map_charged_capacitor lower_charged_capacitor
      mna_solve_charged_capacitor gaussian_elimination_regular_1)

lemma charged_capacitor_dc_fails: "fst (solve 0 (snd (solve 1 (circuit_solver_new charged_capacitor)))) =
   Some (runtime_error ''Could not compute operating point - reason: Could not solve equation system (Gaussian elimination failed)'')"
  apply (subst solve_cases)
  apply (simp add: solve_keeps_circuit node_map_charged_capacitor lower_charged_capacitor
      mna_solve_charged_capacitor gaussian_elimination_singular_1)
  done

theorem solve_failure_keeps_solution_witness:
  "fst (solve 1 (circuit_solver_new charged_capacitor)) = None
   \<and> fst (solve 0 (snd (solve 1 (circuit_solver_new charged_capacitor)))) \<noteq> None
   \<and> (\<exists>sol. get_solution (snd (solve 1 (circuit_solver_new charged_capacitor))) = Some sol
         \<and> get_solution (snd (solve 0 (snd (solve 1 (circuit_solver_new charged_capacitor))))) = Some sol)
   \<and> get_solution_omega (snd (solve 1 (circuit_solver_new charged_capacitor))) = Some 1
   \<and> get_solution_omega (snd (solve 0 (snd (solve 1 (circuit_solver_new charged_capacitor))))) = Some 0"
proof -
  define s1 where "s1 = snd (solve 1 (circuit_solver_new charged_capacitor))"
  define s2 where "s2 = snd (solve 0 s1)"
  have a: "solve 1 (circuit_solver_new charged_capacitor) = (None, s1)"
    using charged_capacitor_ac_ok by (simp add: s1_def prod_eq_iff)
  have b: "solve 0 s1 = (Some (runtime_error ''Could not compute operating point - reason: Could not solve equation system (Gaussian elimination failed)''), s2)"
    using charged_capacitor_dc_fails by (simp add: s1_def s2_def prod_eq_iff)
  from solve_failure_keeps_solution[OF a b] a b show ?thesis
    unfolding s1_def[symmetric] s2_def[symmetric] by auto
qed

section \<open>Lowering the circuit\<close>

lemma node_map_at_dom: "n \<in> dom node_map \<Longrightarrow> node_map_at node_map n = Inr (the (node_map n))"
  by (auto simp add: node_map_at_def)

lemma lower_component_ok:
  assumes "set (component_nodes (snd (snd entry))) \<subseteq> dom node_map"
  shows "lower_component omega node_map entry prob = Inr (lowered_problem omega node_map [entry] prob)"
proof (cases "snd (snd entry)")
  case (resistor nodes R)
  then show ?thesis using assms
    by (cases prob) (simp add: lower_component_def lowered_problem_def lowered_admittances_def
        lowered_current_sources_def map_node_pair_def node_map_at_dom)
next
  case (inductor nodes L)
  then show ?thesis using assms
    by (cases prob) (simp add: lower_component_def lowered_problem_def lowered_admittances_def
        lowered_current_sources_def map_node_pair_def node_map_at_dom)
next
  case (capacitor nodes C)
  then show ?thesis using assms
    by (cases prob) (simp add: lower_component_def lowered_problem_def lowered_admittances_def
        lowered_current_sources_def map_node_pair_def node_map_at_dom)
next
  case (voltage_source nodes dcV acV)
  then show ?thesis using assms
    by (cases prob) (simp add: lower_component_def lowered_problem_def lowered_admittances_def
        lowered_current_sources_def lowered_voltage_source_def map_node_pair_def node_map_at_dom)
next
  case (current_source nodes dcI acI)
  then show ?thesis using assms
    by (cases prob) (simp add: lower_component_def lowered_problem_def lowered_admittances_def
        lowered_current_sources_def map_node_pair_def node_map_at_dom)
next
  case (opamp pos neg out)
  then show ?thesis using assms
    by (cases prob) (simp add: lower_component_def lowered_problem_def lowered_admittances_def
        lowered_current_sources_def lowered_opamp_def map_node_pair_def node_map_at_dom)
next
  case other_component
  then show ?thesis
    by (cases prob) (simp add: lower_component_def lowered_problem_def lowered_admittances_def
        lowered_current_sources_def)
qed

lemma lowered_problem_Cons:
  "lowered_problem omega node_map (entry # rest) prob =
     lowered_problem omega node_map rest (lowered_problem omega node_map [entry] prob)"
  by (simp add: lowered_problem_def lowered_admittances_def lowered_current_sources_def)

lemma lowered_problem_Nil: "lowered_problem omega node_map [] prob = prob"
  by (cases prob) (simp add: lowered_problem_def lowered_admittances_def lowered_current_sources_def)

lemma lower_circuit_ok:
  assumes "set (circuit_nodes circ) \<subseteq> dom node_map"
  shows "lower_circuit omega node_map circ prob = (None, lowered_problem omega node_map circ prob)"
  using assms
proof (induction circ arbitrary: prob)
  case Nil
  then show ?case by (simp add: lowered_problem_Nil)
next
  case (Cons entry rest)
  from Cons.prems have 1: "set (component_nodes (snd (snd entry))) \<subseteq> dom node_map"
    and 2: "set (circuit_nodes rest) \<subseteq> dom node_map"
    by (simp_all add: circuit_nodes_def)
  show ?case
    using lower_component_ok[OF 1, of omega prob] Cons.IH[OF 2]
    by (simp add: lowered_problem_Cons[of omega node_map entry rest])
qed

lemma lower_circuit_new:
  "lower_circuit omega (m_node_map (circuit_solver_new circ)) circ prob =
     (None, lowered_problem omega (m_node_map (circuit_solver_new circ)) circ prob)"
proof (rule lower_circuit_ok)
  let ?s = "\<lparr>m_circuit = circ, m_node_map = Map.empty, m_problem = empty_problem,
        m_solution = None, m_solution_omega = None\<rparr>"
  have "dom (m_node_map (update_node_map ?s)) = insert 0 (set (circuit_nodes (m_circuit ?s)))"
    by (rule dom_update_node_map)
  then show "set (circuit_nodes circ) \<subseteq> dom (m_node_map (circuit_solver_new circ))"
    by (auto simp add: circuit_solver_new_def)
qed

lemma problem_after_solve:
  "m_problem (snd (solve omega (circuit_solver_new circ))) =
     lowered_problem omega (m_node_map (circuit_solver_new circ)) circ empty_problem"
  by (simp add: solve_cases lower_circuit_new split: sum.splits error.splits)

lemma map_adm_Y_lowered:
  "map adm_Y (lowered_admittances omega node_map circ) =
     concat (map (\<lambda>entry. case as_passive_component (snd (snd entry)) of
                    Some (nodes, adm) \<Rightarrow> [adm omega] | None \<Rightarrow> []) circ)"
  by (induction circ) (auto simp add: lowered_admittances_def split: option.splits)

text \<open>
  Claim C6. The admittances that \<open>solve\<close> puts into the MNA problem are, in circuit
  iteration order, one per passive component: \<open>1/R\<close> for a resistor, whatever the
  frequency; \<open>j omega C\<close> for a capacitor, which is zero at \<open>omega = 0\<close>; and for an
  inductor \<open>1/(j omega L)\<close> when \<open>omega\<close> is not zero and the real value \<open>1/1e-9\<close> when it is.
  Other components contribute no admittance.
\<close>

theorem passive_admittances_lowered:
  "map adm_Y (admittances (m_problem (snd (solve omega (circuit_solver_new circ))))) =
     concat (map (\<lambda>entry. case snd (snd entry) of
                resistor nodes R \<Rightarrow> [complex_of_real (1 / R)]
              | capacitor nodes C \<Rightarrow> [\<i> * complex_of_real omega * complex_of_real C]
              | inductor nodes L \<Rightarrow>
                  [if omega = 0 then complex_of_real (1 / (1 / 10 ^ 9))
                   else 1 / (\<i> * complex_of_real omega * complex_of_real L)]
              | _ \<Rightarrow> []) circ)
   \<and> capacitor_admittance C' 0 = 0
   \<and> inductor_admittance L' 0 = complex_of_real (1 / (1 / 10 ^ 9))"
proof -
  have "(case as_passive_component c of Some (nodes, adm) \<Rightarrow> [adm omega] | None \<Rightarrow> []) =
        (case c of
                resistor nodes R \<Rightarrow> [complex_of_real (1 / R)]
              | capacitor nodes C \<Rightarrow> [\<i> * complex_of_real omega * complex_of_real C]
              | inductor nodes L \<Rightarrow>
                  [if omega = 0 then complex_of_real (1 / (1 / 10 ^ 9))
                   else 1 / (\<i> * complex_of_real omega * complex_of_real L)]
              | _ \<Rightarrow> [])" for c
    by (cases c) (simp_all add: resistor_admittance_def capacitor_admittance_def
        inductor_admittance_def)
  then show ?thesis
    by (simp add: problem_after_solve lowered_problem_def empty_problem_def map_adm_Y_lowered
        capacitor_admittance_def inductor_admittance_def)
qed

theorem passive_admittances_lowered_witness:
  "map adm_Y (admittances (m_problem (snd (solve 0 (circuit_solver_new rlc))))) =
     [0, 1000000000, 1 / 4]
   \<and> map adm_Y (admittances (m_problem (snd (solve 2 (circuit_solver_new rlc))))) =
     [\<i> * 6, - (\<i> / 10), 1 / 4]"
  using passive_admittances_lowered[of 0 rlc] passive_admittances_lowered[of 2 rlc]
  by (simp add: rlc_def)

section \<open>Circuit iteration order and branch indices\<close>




















section \<open>Assembly of the MNA system\<close>

lemma for_each_prefix_rule_aux:
  assumes "I ys s"
    and "\<And>zs x rest t. ys @ xs = zs @ x # rest \<Longrightarrow> I zs t \<Longrightarrow>
           \<exists>t'. body x t = Inr t' \<and> I (zs @ [x]) t'"
  shows "\<exists>s'. for_each xs body s = Inr s' \<and> I (ys @ xs) s'"
  using assms
proof (induction xs arbitrary: ys s)
  case Nil
  then show ?case by simp
next
  case (Cons x xs)
  from Cons.prems(2)[of ys x xs s] Cons.prems(1) obtain t where t: "body x s = Inr t" "I (ys @ [x]) t"
    by auto
  have "\<exists>s'. for_each xs body t = Inr s' \<and> I ((ys @ [x]) @ xs) s'"
    by (rule Cons.IH[OF t(2)]) (use Cons.prems(2) in auto)
  then show ?case using t(1) by simp
qed

lemma for_each_prefix_rule:
  assumes "I [] s"
    and "\<And>zs x rest t. xs = zs @ x # rest \<Longrightarrow> I zs t \<Longrightarrow>
           \<exists>t'. body x t = Inr t' \<and> I (zs @ [x]) t'"
  shows "\<exists>s'. for_each xs body s = Inr s' \<and> I xs s'"
  using for_each_prefix_rule_aux[of I "[]" s xs body] assms by simp

lemma fold_max2:
  fixes f g :: "'a \<Rightarrow> int"
  shows "m \<le> fold (\<lambda>v m. max (max m (f v)) (g v)) xs m \<and>
     (\<forall>v \<in> set xs. f v \<le> fold (\<lambda>v m. max (max m (f v)) (g v)) xs m
                  \<and> g v \<le> fold (\<lambda>v m. max (max m (f v)) (g v)) xs m)"
proof (induction xs arbitrary: m)
  case Nil
  then show ?case by simp
next
  case (Cons x xs)
  from Cons[of "max (max m (f x)) (g x)"] show ?case by auto
qed

lemma fold_max3:
  fixes f g h :: "'a \<Rightarrow> int"
  shows "m \<le> fold (\<lambda>v m. max (max (max m (f v)) (g v)) (h v)) xs m \<and>
     (\<forall>v \<in> set xs. f v \<le> fold (\<lambda>v m. max (max (max m (f v)) (g v)) (h v)) xs m
                  \<and> g v \<le> fold (\<lambda>v m. max (max (max m (f v)) (g v)) (h v)) xs m
                  \<and> h v \<le> fold (\<lambda>v m. max (max (max m (f v)) (g v)) (h v)) xs m)"
proof (induction xs arbitrary: m)
  case Nil
  then show ?case by simp
next
  case (Cons x xs)
  from Cons[of "max (max (max m (f x)) (g x)) (h x)"] show ?case by auto
qed

lemma get_max_node_bounds:
  "- 1 \<le> get_max_node p" "nodes_below p (get_max_node p + 1)"
proof -
  define m1 where "m1 = fold (\<lambda>v m. max (max m (fst (adm_nodes v))) (snd (adm_nodes v)))
                       (admittances p) (- 1)"
  define m2 where "m2 = fold (\<lambda>v m. max (max m (fst (vs_nodes v))) (snd (vs_nodes v)))
                       (voltage_sources p) m1"
  define m3 where "m3 = fold (\<lambda>v m. max (max m (fst (cs_nodes v))) (snd (cs_nodes v)))
                       (current_sources p) m2"
  define m4 where "m4 = fold (\<lambda>v m. max (max (max m (pos_input_node v)) (neg_input_node v))
                                   (output_node v)) (opamps p) m3"
  have g: "get_max_node p = m4" by (simp add: get_max_node_def m1_def m2_def m3_def m4_def)
  note a = fold_max2[of "- 1" "\<lambda>v. fst (adm_nodes v)" "\<lambda>v. snd (adm_nodes v)" "admittances p",
      folded m1_def]
  note b = fold_max2[of m1 "\<lambda>v. fst (vs_nodes v)" "\<lambda>v. snd (vs_nodes v)" "voltage_sources p",
      folded m2_def]
  note c = fold_max2[of m2 "\<lambda>v. fst (cs_nodes v)" "\<lambda>v. snd (cs_nodes v)" "current_sources p",
      folded m3_def]
  note d = fold_max3[of m3 pos_input_node neg_input_node output_node "opamps p", folded m4_def]
  from a b c d have le: "- 1 \<le> m1" "m1 \<le> m2" "m2 \<le> m3" "m3 \<le> m4" by simp_all
  then show "- 1 \<le> get_max_node p" unfolding g by simp
  show "nodes_below p (get_max_node p + 1)"
    unfolding g nodes_below_def
  proof (intro conjI ballI)
    fix v assume "v \<in> set (admittances p)"
    with a le show "fst (adm_nodes v) < m4 + 1" "snd (adm_nodes v) < m4 + 1" by force+
  next
    fix v assume "v \<in> set (voltage_sources p)"
    with b le show "fst (vs_nodes v) < m4 + 1" "snd (vs_nodes v) < m4 + 1" by force+
  next
    fix v assume "v \<in> set (current_sources p)"
    with c le show "fst (cs_nodes v) < m4 + 1" "snd (cs_nodes v) < m4 + 1" by force+
  next
    fix v assume "v \<in> set (opamps p)"
    with d show "pos_input_node v < m4 + 1" "neg_input_node v < m4 + 1" "output_node v < m4 + 1"
      by force+
  qed
qed

lemma stamp_admittance_ok:
  assumes wf: "wf_matrix G" and dims: "m_h G = n" "m_w G = n"
    and nodes: "fst (adm_nodes elem) < n" "snd (adm_nodes elem) < n"
  shows "\<exists>G'. stamp_admittance elem G = Inr G' \<and> same_shape G' G \<and>
     (\<forall>i j. 0 \<le> i \<and> i < n \<and> 0 \<le> j \<and> j < n \<longrightarrow>
        ent G' i j = ent G i j + G_contribution elem i j)"
proof -
  define a where "a = fst (adm_nodes elem)"
  define b where "b = snd (adm_nodes elem)"
  define Y where "Y = adm_Y elem"
  have ab: "a < n" "b < n" using nodes by (simp_all add: a_def b_def)
  define G1 where "G1 = (if a \<ge> 0 then mat_upd G a a (ent G a a + Y) else G)"
  define G2 where "G2 = (if b \<ge> 0 then mat_upd G1 b b (ent G1 b b + Y) else G1)"
  define G3 where "G3 = (if a \<ge> 0 \<and> b \<ge> 0 then mat_upd G2 a b (ent G2 a b - Y) else G2)"
  define G4 where "G4 = (if a \<ge> 0 \<and> b \<ge> 0 then mat_upd G3 b a (ent G3 b a - Y) else G3)"
  have s1: "same_shape G1 G" using wf by (simp add: G1_def same_shape_def)
  have s2: "same_shape G2 G" using s1 by (simp add: G2_def same_shape_def)
  have s3: "same_shape G3 G" using s2 by (simp add: G3_def same_shape_def)
  have s4: "same_shape G4 G" using s3 by (simp add: G4_def same_shape_def)
  note sh = s1[unfolded same_shape_def] s2[unfolded same_shape_def] s3[unfolded same_shape_def]
  have run: "stamp_admittance elem G = Inr G4"
    using ab dims wf
    by (cases "a \<ge> 0"; cases "b \<ge> 0")
      (simp_all add: stamp_admittance_def Let_def a_def[symmetric] b_def[symmetric]
        Y_def[symmetric] mat_modify_upd G1_def G2_def G3_def G4_def)
  have e: "ent G4 i j = ent G i j + G_contribution elem i j"
    if ij: "0 \<le> i" "i < n" "0 \<le> j" "j < n" for i j
  proof -
    have e1: "ent G1 i j = ent G i j + (if a \<ge> 0 \<and> i = a \<and> j = a then Y else 0)"
      using ij ab dims wf by (simp add: G1_def ent_mat_upd)
    have e2: "ent G2 i j = ent G1 i j + (if b \<ge> 0 \<and> i = b \<and> j = b then Y else 0)"
      using ij ab dims sh by (simp add: G2_def ent_mat_upd)
    have e3: "ent G3 i j = ent G2 i j - (if a \<ge> 0 \<and> b \<ge> 0 \<and> i = a \<and> j = b then Y else 0)"
      using ij ab dims sh by (simp add: G3_def ent_mat_upd)
    have e4: "ent G4 i j = ent G3 i j - (if a \<ge> 0 \<and> b \<ge> 0 \<and> i = b \<and> j = a then Y else 0)"
      using ij ab dims sh by (simp add: G4_def ent_mat_upd)
    show ?thesis
      unfolding e4 e3 e2 e1 G_contribution_def Let_def a_def[symmetric] b_def[symmetric]
        Y_def[symmetric] by simp
  qed
  show ?thesis using run s4 e by blast
qed

lemma stamp_admittances_ok:
  assumes n: "0 \<le> n"
    and nodes: "\<forall>v \<in> set adms. fst (adm_nodes v) < n \<and> snd (adm_nodes v) < n"
  shows "\<exists>G. for_each adms stamp_admittance (matrix_new n n) = Inr G \<and> wf_matrix G
     \<and> m_h G = n \<and> m_w G = n
     \<and> (\<forall>i j. 0 \<le> i \<and> i < n \<and> 0 \<le> j \<and> j < n \<longrightarrow>
          ent G i j = (\<Sum>elem\<leftarrow>adms. G_contribution elem i j))"
proof -
  define I where "I = (\<lambda>zs G. wf_matrix G \<and> m_h G = n \<and> m_w G = n
     \<and> (\<forall>i j. 0 \<le> i \<and> i < n \<and> 0 \<le> j \<and> j < n \<longrightarrow>
          ent G i j = (\<Sum>elem\<leftarrow>zs. G_contribution elem i j)))"
  have "\<exists>G. for_each adms stamp_admittance (matrix_new n n) = Inr G \<and> I adms G"
  proof (rule for_each_prefix_rule[where I = I])
    show "I [] (matrix_new n n)" using n by (simp add: I_def wf_matrix_new ent_matrix_new)
  next
    fix zs x rest t assume xs: "adms = zs @ x # rest" and t: "I zs t"
    have x: "fst (adm_nodes x) < n" "snd (adm_nodes x) < n" using nodes xs by simp_all
    from t have wf: "wf_matrix t" and d: "m_h t = n" "m_w t = n" by (simp_all add: I_def)
    from stamp_admittance_ok[OF wf d x] obtain G' where G': "stamp_admittance x t = Inr G'"
      "same_shape G' t"
      "\<forall>i j. 0 \<le> i \<and> i < n \<and> 0 \<le> j \<and> j < n \<longrightarrow> ent G' i j = ent t i j + G_contribution x i j"
      by blast
    have "I (zs @ [x]) G'" using G'(2,3) t d by (simp add: I_def same_shape_def)
    then show "\<exists>t'. stamp_admittance x t = Inr t' \<and> I (zs @ [x]) t'" using G'(1) by simp
  qed
  then show ?thesis by (auto simp add: I_def)
qed

lemma stamp_voltage_sources_ok:
  assumes n: "0 \<le> n" and m: "int (length vss) \<le> m"
    and nodes: "\<forall>v \<in> set vss. fst (vs_nodes v) < n \<and> snd (vs_nodes v) < n"
  shows "\<exists>B. for_loop 0 (int (length vss)) (stamp_voltage_source vss) (matrix_new n m) = Inr B
     \<and> wf_matrix B \<and> m_h B = n \<and> m_w B = m
     \<and> (\<forall>i k. 0 \<le> i \<and> i < n \<and> 0 \<le> k \<and> k < m \<longrightarrow>
          ent B i k = (if k < int (length vss) then voltage_source_stamp (vss ! nat k) i else 0))"
proof -
  define I where "I = (\<lambda>(c::int) B. wf_matrix B \<and> m_h B = n \<and> m_w B = m
     \<and> (\<forall>i k. 0 \<le> i \<and> i < n \<and> 0 \<le> k \<and> k < m \<longrightarrow>
          ent B i k = (if k < c then voltage_source_stamp (vss ! nat k) i else 0)))"
  have m0: "0 \<le> m" using m by simp
  have "\<exists>B. for_loop 0 (int (length vss)) (stamp_voltage_source vss) (matrix_new n m) = Inr B
     \<and> I (int (length vss)) B"
  proof (rule for_loop_rule[where I = I])
    show "0 \<le> int (length vss)" by simp
    show "I 0 (matrix_new n m)" using n m0 by (simp add: I_def wf_matrix_new ent_matrix_new)
  next
    fix c t assume c: "0 \<le> c" "c < int (length vss)" and t: "I c t"
    define vs where "vs = vss ! nat c"
    define a where "a = fst (vs_nodes vs)"
    define b where "b = snd (vs_nodes vs)"
    have "vs \<in> set vss" using c by (simp add: vs_def)
    then have ab: "a < n" "b < n" using nodes by (simp_all add: a_def b_def)
    from t have wf: "wf_matrix t" and d: "m_h t = n" "m_w t = m" by (simp_all add: I_def)
    have cm: "c < m" using c m by simp
    define B1 where "B1 = (if a \<ge> 0 then mat_upd t a c 1 else t)"
    define B2 where "B2 = (if b \<ge> 0 then mat_upd B1 b c (- 1) else B1)"
    have wf1: "wf_matrix B1" "m_h B1 = n" "m_w B1 = m" using wf d by (simp_all add: B1_def)
    have wf2: "wf_matrix B2" "m_h B2 = n" "m_w B2 = m" using wf1 by (simp_all add: B2_def)
    have run: "stamp_voltage_source vss c t = Inr B2"
      using ab c cm d
      by (cases "a \<ge> 0"; cases "b \<ge> 0")
        (simp_all add: stamp_voltage_source_def Let_def vs_def[symmetric] a_def[symmetric]
          b_def[symmetric] mat_set_upd B1_def B2_def)
    have "I (c + 1) B2"
      unfolding I_def
    proof (intro conjI allI impI)
      fix i k assume ik: "0 \<le> i \<and> i < n \<and> 0 \<le> k \<and> k < m"
      have old: "ent t i k = (if k < c then voltage_source_stamp (vss ! nat k) i else 0)"
        using t ik by (simp add: I_def)
      have e1: "ent B1 i k = (if a \<ge> 0 \<and> i = a \<and> k = c then 1 else ent t i k)"
        using ik ab c cm d wf by (simp add: B1_def ent_mat_upd)
      have e2: "ent B2 i k = (if b \<ge> 0 \<and> i = b \<and> k = c then - 1 else ent B1 i k)"
        using ik ab c cm wf1 by (simp add: B2_def ent_mat_upd)
      show "ent B2 i k = (if k < c + 1 then voltage_source_stamp (vss ! nat k) i else 0)"
      proof (cases "k = c")
        case True
        then show ?thesis
          using ik unfolding e2 e1 old
          by (auto simp add: voltage_source_stamp_def vs_def[symmetric] a_def[symmetric]
              b_def[symmetric])
      next
        case False
        then show ?thesis unfolding e2 e1 old by auto
      qed
    qed (use wf2 in simp_all)
    then show "\<exists>t'. stamp_voltage_source vss c t = Inr t' \<and> I (c + 1) t'" using run by simp
  qed
  then show ?thesis by (auto simp add: I_def)
qed

lemma stamp_opamp_outputs_ok:
  assumes wf: "wf_matrix B" and dims: "m_h B = n" "m_w B = m"
    and V: "0 \<le> V" "V + int (length opas) \<le> m"
    and nodes: "\<forall>v \<in> set opas. output_node v < n"
  shows "\<exists>B' i. for_each opas stamp_opamp_output (B, V) = Inr (B', i)
     \<and> wf_matrix B' \<and> m_h B' = n \<and> m_w B' = m
     \<and> (\<forall>r c. 0 \<le> r \<and> r < n \<and> 0 \<le> c \<and> c < m \<longrightarrow>
          ent B' r c = (if V \<le> c \<and> c < V + int (length opas) \<and> r = output_node (opas ! nat (c - V))
                        then 1 else ent B r c))"
proof -
  define I where "I = (\<lambda>(zs :: mna_opamp list) (st :: complex matrix \<times> int). wf_matrix (fst st) \<and> m_h (fst st) = n
     \<and> m_w (fst st) = m \<and> snd st = V + int (length zs)
     \<and> (\<forall>r c. 0 \<le> r \<and> r < n \<and> 0 \<le> c \<and> c < m \<longrightarrow>
          ent (fst st) r c = (if V \<le> c \<and> c < V + int (length zs) \<and> r = output_node (opas ! nat (c - V))
                        then 1 else ent B r c)))"
  have "\<exists>st. for_each opas stamp_opamp_output (B, V) = Inr st \<and> I opas st"
  proof (rule for_each_prefix_rule[where I = I])
    show "I [] (B, V)" using wf dims by (auto simp add: I_def)
  next
    fix zs x rest st assume xs: "opas = zs @ x # rest" and st: "I zs st"
    obtain t i where sti: "st = (t, i)" by (cases st)
    from st have wft: "wf_matrix t" and d: "m_h t = n" "m_w t = m" and i: "i = V + int (length zs)"
      by (simp_all add: I_def sti)
    have x: "output_node x < n" using nodes xs by simp
    have xn: "opas ! length zs = x" using xs by simp
    have im: "0 \<le> i" "i < m" using i V xs by simp_all
    define B1 where "B1 = (if output_node x \<ge> 0 then mat_upd t (output_node x) i 1 else t)"
    have wf1: "wf_matrix B1" "m_h B1 = n" "m_w B1 = m" using wft d by (simp_all add: B1_def)
    have run: "stamp_opamp_output x st = Inr (B1, i + 1)"
      using x im d by (simp add: stamp_opamp_output_def sti mat_set_upd B1_def)
    have "I (zs @ [x]) (B1, i + 1)"
      unfolding I_def
    proof (intro conjI allI impI)
      fix r c assume rc: "0 \<le> r \<and> r < n \<and> 0 \<le> c \<and> c < m"
      have old: "ent t r c = (if V \<le> c \<and> c < V + int (length zs) \<and> r = output_node (opas ! nat (c - V))
                        then 1 else ent B r c)"
        using st rc by (simp add: I_def sti)
      have e1: "ent B1 r c = (if output_node x \<ge> 0 \<and> r = output_node x \<and> c = i then 1 else ent t r c)"
        using rc x im d wft by (simp add: B1_def ent_mat_upd)
      show "ent (fst (B1, i + 1)) r c =
          (if V \<le> c \<and> c < V + int (length (zs @ [x])) \<and> r = output_node (opas ! nat (c - V))
           then 1 else ent B r c)"
      proof (cases "c = i")
        case True
        then have "nat (c - V) = length zs" using i by simp
        then show ?thesis using True rc i xn unfolding fst_conv e1 old by auto
      next
        case False
        then show ?thesis using i unfolding fst_conv e1 old by auto
      qed
    qed (use wf1 i in simp_all)
    then show "\<exists>t'. stamp_opamp_output x st = Inr t' \<and> I (zs @ [x]) t'" using run by simp
  qed
  then obtain st where st: "for_each opas stamp_opamp_output (B, V) = Inr st" "I opas st" by blast
  obtain B' i where "st = (B', i)" by (cases st)
  then show ?thesis using st by (auto simp add: I_def)
qed

lemma stamp_opamp_inputs_ok:
  assumes wf: "wf_matrix C" and dims: "m_h C = m" "m_w C = n"
    and V: "0 \<le> V" "V + int (length opas) \<le> m"
    and nodes: "\<forall>v \<in> set opas. pos_input_node v < n \<and> neg_input_node v < n"
  shows "\<exists>C' i. for_each opas stamp_opamp_inputs (C, V) = Inr (C', i)
     \<and> wf_matrix C' \<and> m_h C' = m \<and> m_w C' = n
     \<and> (\<forall>r c. 0 \<le> r \<and> r < m \<and> 0 \<le> c \<and> c < n \<longrightarrow>
          ent C' r c = (if V \<le> r \<and> r < V + int (length opas)
                             \<and> (c = pos_input_node (opas ! nat (r - V))
                                 \<or> c = neg_input_node (opas ! nat (r - V)))
                        then opamp_input_stamp (opas ! nat (r - V)) c else ent C r c))"
proof -
  define I where "I = (\<lambda>(zs :: mna_opamp list) (st :: complex matrix \<times> int). wf_matrix (fst st) \<and> m_h (fst st) = m
     \<and> m_w (fst st) = n \<and> snd st = V + int (length zs)
     \<and> (\<forall>r c. 0 \<le> r \<and> r < m \<and> 0 \<le> c \<and> c < n \<longrightarrow>
          ent (fst st) r c = (if V \<le> r \<and> r < V + int (length zs)
                             \<and> (c = pos_input_node (opas ! nat (r - V))
                                 \<or> c = neg_input_node (opas ! nat (r - V)))
                        then opamp_input_stamp (opas ! nat (r - V)) c else ent C r c)))"
  have "\<exists>st. for_each opas stamp_opamp_inputs (C, V) = Inr st \<and> I opas st"
  proof (rule for_each_prefix_rule[where I = I])
    show "I [] (C, V)" using wf dims by (auto simp add: I_def)
  next
    fix zs x rest st assume xs: "opas = zs @ x # rest" and st: "I zs st"
    obtain t i where sti: "st = (t, i)" by (cases st)
    from st have wft: "wf_matrix t" and d: "m_h t = m" "m_w t = n" and i: "i = V + int (length zs)"
      by (simp_all add: I_def sti)
    define p where "p = pos_input_node x"
    define q where "q = neg_input_node x"
    have x: "p < n" "q < n" using nodes xs by (simp_all add: p_def q_def)
    have xn: "opas ! length zs = x" using xs by simp
    have im: "0 \<le> i" "i < m" using i V xs by simp_all
    define C1 where "C1 = (if p \<ge> 0 then mat_upd t i p 1 else t)"
    define C2 where "C2 = (if q \<ge> 0 then mat_upd C1 i q (- 1) else C1)"
    have wf1: "wf_matrix C1" "m_h C1 = m" "m_w C1 = n" using wft d by (simp_all add: C1_def)
    have wf2: "wf_matrix C2" "m_h C2 = m" "m_w C2 = n" using wf1 by (simp_all add: C2_def)
    have run: "stamp_opamp_inputs x st = Inr (C2, i + 1)"
      using x im d
      by (cases "p \<ge> 0"; cases "q \<ge> 0")
        (simp_all add: stamp_opamp_inputs_def sti mat_set_upd C1_def C2_def p_def[symmetric]
          q_def[symmetric])
    have "I (zs @ [x]) (C2, i + 1)"
      unfolding I_def
    proof (intro conjI allI impI)
      fix r c assume rc: "0 \<le> r \<and> r < m \<and> 0 \<le> c \<and> c < n"
      have old: "ent t r c = (if V \<le> r \<and> r < V + int (length zs)
                             \<and> (c = pos_input_node (opas ! nat (r - V))
                                 \<or> c = neg_input_node (opas ! nat (r - V)))
                        then opamp_input_stamp (opas ! nat (r - V)) c else ent C r c)"
        using st rc by (simp add: I_def sti)
      have e1: "ent C1 r c = (if p \<ge> 0 \<and> r = i \<and> c = p then 1 else ent t r c)"
        using rc x im d wft by (simp add: C1_def ent_mat_upd)
      have e2: "ent C2 r c = (if q \<ge> 0 \<and> r = i \<and> c = q then - 1 else ent C1 r c)"
        using rc x im wf1 by (simp add: C2_def ent_mat_upd)
      show "ent (fst (C2, i + 1)) r c =
          (if V \<le> r \<and> r < V + int (length (zs @ [x]))
                             \<and> (c = pos_input_node (opas ! nat (r - V))
                                 \<or> c = neg_input_node (opas ! nat (r - V)))
           then opamp_input_stamp (opas ! nat (r - V)) c else ent C r c)"
      proof (cases "r = i")
        case True
        then have "nat (r - V) = length zs" using i by simp
        then show ?thesis using True rc i xn unfolding fst_conv e2 e1 old
          by (auto simp add: opamp_input_stamp_def p_def q_def)
      next
        case False
        then show ?thesis using i unfolding fst_conv e2 e1 old by auto
      qed
    qed (use wf2 i in simp_all)
    then show "\<exists>t'. stamp_opamp_inputs x st = Inr t' \<and> I (zs @ [x]) t'" using run by simp
  qed
  then obtain st where st: "for_each opas stamp_opamp_inputs (C, V) = Inr st" "I opas st" by blast
  obtain C' i where "st = (C', i)" by (cases st)
  then show ?thesis using st by (auto simp add: I_def)
qed

lemma compute_matrix_A_ok:
  assumes n: "0 \<le> n" and nodes: "nodes_below p n"
  shows "\<exists>A. compute_matrix_A p n = Inr A \<and> wf_matrix A
     \<and> m_h A = n + int (length (voltage_sources p)) + int (length (opamps p))
     \<and> m_w A = n + int (length (voltage_sources p)) + int (length (opamps p))
     \<and> (\<forall>i j. 0 \<le> i \<and> i < n + int (length (voltage_sources p)) + int (length (opamps p))
             \<and> 0 \<le> j \<and> j < n + int (length (voltage_sources p)) + int (length (opamps p)) \<longrightarrow>
          ent A i j = A_entry p n i j)"
proof -
  define V where "V = int (length (voltage_sources p))"
  define P where "P = int (length (opamps p))"
  define m where "m = P + V"
  have VP: "0 \<le> V" "0 \<le> P" "0 \<le> m" "V + P \<le> m" by (simp_all add: V_def P_def m_def)
  from nodes have n1: "\<forall>v \<in> set (admittances p). fst (adm_nodes v) < n \<and> snd (adm_nodes v) < n"
    and n2: "\<forall>v \<in> set (voltage_sources p). fst (vs_nodes v) < n \<and> snd (vs_nodes v) < n"
    and n3: "\<forall>v \<in> set (opamps p). output_node v < n"
    and n4: "\<forall>v \<in> set (opamps p). pos_input_node v < n \<and> neg_input_node v < n"
    by (simp_all add: nodes_below_def)
  from stamp_admittances_ok[OF n n1] obtain G where
    G: "for_each (admittances p) stamp_admittance (matrix_new n n) = Inr G" "wf_matrix G"
      "m_h G = n" "m_w G = n"
      "\<forall>i j. 0 \<le> i \<and> i < n \<and> 0 \<le> j \<and> j < n \<longrightarrow>
          ent G i j = (\<Sum>elem\<leftarrow>admittances p. G_contribution elem i j)"
    by blast
  have Vm: "int (length (voltage_sources p)) \<le> m" by (simp add: m_def V_def P_def)
  from stamp_voltage_sources_ok[OF n Vm n2] obtain B1 where
    B1: "for_loop 0 V (stamp_voltage_source (voltage_sources p)) (matrix_new n m) = Inr B1"
      "wf_matrix B1" "m_h B1 = n" "m_w B1 = m"
      "\<forall>i k. 0 \<le> i \<and> i < n \<and> 0 \<le> k \<and> k < m \<longrightarrow>
          ent B1 i k = (if k < V then voltage_source_stamp (voltage_sources p ! nat k) i else 0)"
    unfolding V_def by blast
  from mat_transpose_ok[OF B1(2)] obtain C1 where
    C1: "mat_transpose B1 = Inr C1" "wf_matrix C1" "m_h C1 = m" "m_w C1 = n"
      "\<forall>r c. 0 \<le> r \<and> r < m \<and> 0 \<le> c \<and> c < n \<longrightarrow> ent C1 r c = ent B1 c r"
    unfolding B1(3,4) by blast
  from stamp_opamp_outputs_ok[OF B1(2,3,4) VP(1) _ n3] VP(4) obtain B2 i2 where
    B2: "for_each (opamps p) stamp_opamp_output (B1, V) = Inr (B2, i2)"
      "wf_matrix B2" "m_h B2 = n" "m_w B2 = m"
      "\<forall>r c. 0 \<le> r \<and> r < n \<and> 0 \<le> c \<and> c < m \<longrightarrow>
          ent B2 r c = (if V \<le> c \<and> c < V + P \<and> r = output_node (opamps p ! nat (c - V))
                        then 1 else ent B1 r c)"
    unfolding P_def by blast
  from stamp_opamp_inputs_ok[OF C1(2,3,4) VP(1) _ n4] VP(4) obtain C2 i3 where
    C2: "for_each (opamps p) stamp_opamp_inputs (C1, V) = Inr (C2, i3)"
      "wf_matrix C2" "m_h C2 = m" "m_w C2 = n"
      "\<forall>r c. 0 \<le> r \<and> r < m \<and> 0 \<le> c \<and> c < n \<longrightarrow>
          ent C2 r c = (if V \<le> r \<and> r < V + P
                             \<and> (c = pos_input_node (opamps p ! nat (r - V))
                                 \<or> c = neg_input_node (opamps p ! nat (r - V)))
                        then opamp_input_stamp (opamps p ! nat (r - V)) c else ent C1 r c)"
    unfolding P_def by blast
  define D :: "complex matrix" where "D = matrix_new m m"
  have D: "wf_matrix D" "m_h D = m" "m_w D = m" using VP by (simp_all add: D_def wf_matrix_new)
  from join_matrices_horizontal_ok[OF G(2) B2(2)] G(3) B2(3) obtain GB where
    GB: "join_matrices_horizontal G B2 = Inr GB" "wf_matrix GB" "m_h GB = n" "m_w GB = n + m"
      "\<forall>i j. 0 \<le> i \<and> i < n \<and> 0 \<le> j \<and> j < n + m \<longrightarrow>
          ent GB i j = (if j < n then ent G i j else ent B2 i (j - n))"
    unfolding G(3,4) B2(4) by auto
  from join_matrices_horizontal_ok[OF C2(2) D(1)] C2(3) D(2) obtain CD where
    CD: "join_matrices_horizontal C2 D = Inr CD" "wf_matrix CD" "m_h CD = m" "m_w CD = n + m"
      "\<forall>i j. 0 \<le> i \<and> i < m \<and> 0 \<le> j \<and> j < n + m \<longrightarrow>
          ent CD i j = (if j < n then ent C2 i j else ent D i (j - n))"
    unfolding C2(3,4) D(3) by auto
  from join_matrices_vertical_ok[OF GB(2) CD(2)] GB(4) CD(4) obtain A where
    A: "join_matrices_vertical GB CD = Inr A" "wf_matrix A" "m_h A = n + m" "m_w A = n + m"
      "\<forall>i j. 0 \<le> i \<and> i < n + m \<and> 0 \<le> j \<and> j < n + m \<longrightarrow>
          ent A i j = (if i < n then ent GB i j else ent CD (i - n) j)"
    unfolding GB(3,4) CD(3) by auto
  have run: "compute_matrix_A p n = Inr A"
    using G(1) B1(1) C1(1) B2(1) C2(1) GB(1) CD(1) A(1)
    by (simp add: compute_matrix_A_def Let_def V_def[symmetric] P_def[symmetric] m_def[symmetric]
        D_def[symmetric])
  have ent: "ent A i j = A_entry p n i j" if ij: "0 \<le> i" "i < n + m" "0 \<le> j" "j < n + m" for i j
  proof (cases "i < n")
    case top: True
    show ?thesis
    proof (cases "j < n")
      case True
      then show ?thesis using top ij A(5) GB(5) G(5) by (simp add: A_entry_def)
    next
      case False
      then have "ent A i j = ent B2 i (j - n)" using top ij A(5) GB(5) by simp
      also have "\<dots> = (if V \<le> j - n \<and> j - n < V + P \<and> i = output_node (opamps p ! nat (j - n - V))
                        then 1 else ent B1 i (j - n))"
        using B2(5) top ij False by simp
      also have "\<dots> = A_entry p n i j"
        using B1(5) top ij False
        by (auto simp add: A_entry_def V_def[symmetric] opamp_output_stamp_def m_def)
      finally show ?thesis .
    qed
  next
    case bottom: False
    show ?thesis
    proof (cases "j < n")
      case True
      have "ent A i j = ent C2 (i - n) j" using bottom True ij A(5) CD(5) by simp
      also have "\<dots> = (if V \<le> i - n \<and> i - n < V + P
                             \<and> (j = pos_input_node (opamps p ! nat (i - n - V))
                                 \<or> j = neg_input_node (opamps p ! nat (i - n - V)))
                        then opamp_input_stamp (opamps p ! nat (i - n - V)) j
                        else ent C1 (i - n) j)"
        using C2(5) bottom True ij by simp
      also have "\<dots> = A_entry p n i j"
        using C1(5) B1(5) bottom True ij
        by (auto simp add: A_entry_def V_def[symmetric] opamp_input_stamp_def m_def)
      finally show ?thesis .
    next
      case False
      then have "ent A i j = ent D (i - n) (j - n)" using bottom ij A(5) CD(5) by simp
      then show ?thesis using bottom False ij by (simp add: A_entry_def D_def ent_matrix_new)
    qed
  qed
  have "n + m = n + V + P" by (simp add: m_def)
  then show ?thesis using run A(2,3,4) ent unfolding V_def P_def by auto
qed

lemma stamp_current_source_ok:
  assumes wf: "wf_matrix I" and dims: "m_h I = n" "m_w I = 1"
    and nodes: "fst (cs_nodes cs) < n" "snd (cs_nodes cs) < n"
  shows "\<exists>I'. stamp_current_source cs I = Inr I' \<and> wf_matrix I' \<and> m_h I' = n \<and> m_w I' = 1 \<and>
     (\<forall>i. 0 \<le> i \<and> i < n \<longrightarrow> ent I' i 0 = ent I i 0 + i_contribution cs i)"
proof -
  define a where "a = fst (cs_nodes cs)"
  define b where "b = snd (cs_nodes cs)"
  define x where "x = complex_of_real (cs_I cs)"
  have ab: "a < n" "b < n" using nodes by (simp_all add: a_def b_def)
  define I1 where "I1 = (if a \<ge> 0 then mat_upd I a 0 (ent I a 0 + x) else I)"
  define I2 where "I2 = (if b \<ge> 0 then mat_upd I1 b 0 (ent I1 b 0 + - x) else I1)"
  have wf1: "wf_matrix I1" "m_h I1 = n" "m_w I1 = 1" using wf dims by (simp_all add: I1_def)
  have wf2: "wf_matrix I2" "m_h I2 = n" "m_w I2 = 1" using wf1 by (simp_all add: I2_def)
  have run: "stamp_current_source cs I = Inr I2"
    using ab dims wf
    by (cases "a \<ge> 0"; cases "b \<ge> 0")
      (simp_all add: stamp_current_source_def a_def[symmetric] b_def[symmetric] x_def
        mat_modify_upd I1_def I2_def)
  have e: "ent I2 i 0 = ent I i 0 + i_contribution cs i" if i: "0 \<le> i" "i < n" for i
  proof -
    have e1: "ent I1 i 0 = ent I i 0 + (if a \<ge> 0 \<and> i = a then x else 0)"
      using i ab dims wf by (simp add: I1_def ent_mat_upd)
    have e2: "ent I2 i 0 = ent I1 i 0 - (if b \<ge> 0 \<and> i = b then x else 0)"
      using i ab wf1 by (simp add: I2_def ent_mat_upd)
    show ?thesis
      unfolding e2 e1 i_contribution_def a_def[symmetric] b_def[symmetric] x_def[symmetric]
      by simp
  qed
  show ?thesis using run wf2 e by blast
qed

lemma compute_matrix_z_ok:
  assumes n: "0 \<le> n" and nodes: "nodes_below p n"
  shows "\<exists>z. compute_matrix_z p n = Inr z \<and> wf_matrix z
     \<and> m_h z = n + int (length (voltage_sources p)) + int (length (opamps p)) \<and> m_w z = 1
     \<and> (\<forall>i. 0 \<le> i \<and> i < n + int (length (voltage_sources p)) + int (length (opamps p)) \<longrightarrow>
          ent z i 0 = z_entry p n i)"
proof -
  define V where "V = int (length (voltage_sources p))"
  define P where "P = int (length (opamps p))"
  define m where "m = P + V"
  have VP: "0 \<le> V" "0 \<le> P" "0 \<le> m" "V \<le> m" by (simp_all add: V_def P_def m_def)
  from nodes have n3: "\<forall>v \<in> set (current_sources p). fst (cs_nodes v) < n \<and> snd (cs_nodes v) < n"
    by (simp add: nodes_below_def)
  define J where "J = (\<lambda>(zs :: mna_current_source list) I. wf_matrix I \<and> m_h I = n \<and> m_w I = 1
     \<and> (\<forall>i. 0 \<le> i \<and> i < n \<longrightarrow> ent I i 0 = (\<Sum>cs\<leftarrow>zs. i_contribution cs i)))"
  have "\<exists>I. for_each (current_sources p) stamp_current_source (matrix_new n 1) = Inr I
          \<and> J (current_sources p) I"
  proof (rule for_each_prefix_rule[where I = J])
    show "J [] (matrix_new n 1)" using n by (simp add: J_def wf_matrix_new ent_matrix_new)
  next
    fix zs x rest t assume xs: "current_sources p = zs @ x # rest" and t: "J zs t"
    have x: "fst (cs_nodes x) < n" "snd (cs_nodes x) < n" using n3 xs by simp_all
    from t have wf: "wf_matrix t" and d: "m_h t = n" "m_w t = 1" by (simp_all add: J_def)
    from stamp_current_source_ok[OF wf d x] obtain I' where I': "stamp_current_source x t = Inr I'"
      "wf_matrix I'" "m_h I' = n" "m_w I' = 1"
      "\<forall>i. 0 \<le> i \<and> i < n \<longrightarrow> ent I' i 0 = ent t i 0 + i_contribution x i"
      by blast
    have "J (zs @ [x]) I'" using I'(2-5) t by (simp add: J_def)
    then show "\<exists>t'. stamp_current_source x t = Inr t' \<and> J (zs @ [x]) t'" using I'(1) by simp
  qed
  then obtain I where
    I: "for_each (current_sources p) stamp_current_source (matrix_new n 1) = Inr I"
      "wf_matrix I" "m_h I = n" "m_w I = 1"
      "\<forall>i. 0 \<le> i \<and> i < n \<longrightarrow> ent I i 0 = (\<Sum>cs\<leftarrow>current_sources p. i_contribution cs i)"
    by (auto simp add: J_def)
  define K where "K = (\<lambda>(c::int) E. wf_matrix E \<and> m_h E = m \<and> m_w E = 1
     \<and> (\<forall>k. 0 \<le> k \<and> k < m \<longrightarrow>
          ent E k 0 = (if k < c then complex_of_real (vs_V (voltage_sources p ! nat k)) else 0)))"
  have "\<exists>E. for_loop 0 V (\<lambda>i E. mat_set E i 0 (complex_of_real (vs_V (voltage_sources p ! nat i))))
               (matrix_new m 1) = Inr E \<and> K V E"
  proof (rule for_loop_rule[where I = K])
    show "0 \<le> V" by (rule VP)
    show "K 0 (matrix_new m 1)" using VP by (simp add: K_def wf_matrix_new ent_matrix_new)
  next
    fix c t assume c: "0 \<le> c" "c < V" and t: "K c t"
    from t have wf: "wf_matrix t" and d: "m_h t = m" "m_w t = 1" by (simp_all add: K_def)
    have cm: "c < m" using c VP by simp
    have run: "mat_set t c 0 (complex_of_real (vs_V (voltage_sources p ! nat c)))
        = Inr (mat_upd t c 0 (complex_of_real (vs_V (voltage_sources p ! nat c))))"
      using c cm d by (simp add: mat_set_upd)
    have "K (c + 1) (mat_upd t c 0 (complex_of_real (vs_V (voltage_sources p ! nat c))))"
      unfolding K_def
    proof (intro conjI allI impI)
      fix k assume k: "0 \<le> k \<and> k < m"
      have old: "ent t k 0 = (if k < c then complex_of_real (vs_V (voltage_sources p ! nat k)) else 0)"
        using t k by (simp add: K_def)
      have "ent (mat_upd t c 0 (complex_of_real (vs_V (voltage_sources p ! nat c)))) k 0
          = (if k = c then complex_of_real (vs_V (voltage_sources p ! nat c)) else ent t k 0)"
        using k c cm d wf by (simp add: ent_mat_upd)
      then show "ent (mat_upd t c 0 (complex_of_real (vs_V (voltage_sources p ! nat c)))) k 0
          = (if k < c + 1 then complex_of_real (vs_V (voltage_sources p ! nat k)) else 0)"
        unfolding old by auto
    qed (use wf d in simp_all)
    then show "\<exists>t'. mat_set t c 0 (complex_of_real (vs_V (voltage_sources p ! nat c))) = Inr t'
        \<and> K (c + 1) t'"
      using run by simp
  qed
  then obtain E where
    E: "for_loop 0 V (\<lambda>i E. mat_set E i 0 (complex_of_real (vs_V (voltage_sources p ! nat i))))
               (matrix_new m 1) = Inr E"
      "wf_matrix E" "m_h E = m" "m_w E = 1"
      "\<forall>k. 0 \<le> k \<and> k < m \<longrightarrow>
          ent E k 0 = (if k < V then complex_of_real (vs_V (voltage_sources p ! nat k)) else 0)"
    by (auto simp add: K_def)
  from join_matrices_vertical_ok[OF I(2) E(2)] I(4) E(4) obtain z where
    z: "join_matrices_vertical I E = Inr z" "wf_matrix z" "m_h z = n + m" "m_w z = 1"
      "\<forall>i j. 0 \<le> i \<and> i < n + m \<and> 0 \<le> j \<and> j < 1 \<longrightarrow>
          ent z i j = (if i < n then ent I i j else ent E (i - n) j)"
    unfolding I(3,4) E(3) by auto
  have run: "compute_matrix_z p n = Inr z"
    using I(1) E(1) z(1)
    by (simp add: compute_matrix_z_def Let_def V_def[symmetric] P_def[symmetric] m_def[symmetric])
  have ent: "ent z i 0 = z_entry p n i" if i: "0 \<le> i" "i < n + m" for i
    using z(5) I(5) E(5) i by (auto simp add: z_entry_def V_def)
  have "n + m = n + V + P" by (simp add: m_def)
  then show ?thesis using run z(2,3,4) ent unfolding V_def P_def by auto
qed

lemma compute_matrix_A_solve:
  "\<exists>A. compute_matrix_A p (get_max_node p + 1) = Inr A \<and> wf_matrix A
     \<and> m_h A = get_max_node p + 1 + int (length (voltage_sources p)) + int (length (opamps p))
     \<and> m_w A = get_max_node p + 1 + int (length (voltage_sources p)) + int (length (opamps p))
     \<and> (\<forall>i j. 0 \<le> i \<and> i < get_max_node p + 1 + int (length (voltage_sources p)) + int (length (opamps p))
             \<and> 0 \<le> j \<and> j < get_max_node p + 1 + int (length (voltage_sources p)) + int (length (opamps p)) \<longrightarrow>
          mat_get A i j = Inr (A_entry p (get_max_node p + 1) i j))"
proof -
  have n: "0 \<le> get_max_node p + 1" using get_max_node_bounds(1)[of p] by simp
  from compute_matrix_A_ok[OF n get_max_node_bounds(2)] obtain A where
    A: "compute_matrix_A p (get_max_node p + 1) = Inr A" "wf_matrix A"
     "m_h A = get_max_node p + 1 + int (length (voltage_sources p)) + int (length (opamps p))"
     "m_w A = get_max_node p + 1 + int (length (voltage_sources p)) + int (length (opamps p))"
     "\<forall>i j. 0 \<le> i \<and> i < get_max_node p + 1 + int (length (voltage_sources p)) + int (length (opamps p))
             \<and> 0 \<le> j \<and> j < get_max_node p + 1 + int (length (voltage_sources p)) + int (length (opamps p)) \<longrightarrow>
          ent A i j = A_entry p (get_max_node p + 1) i j"
    by blast
  have "mat_get A i j = Inr (A_entry p (get_max_node p + 1) i j)"
    if "0 \<le> i" "i < get_max_node p + 1 + int (length (voltage_sources p)) + int (length (opamps p))"
      "0 \<le> j" "j < get_max_node p + 1 + int (length (voltage_sources p)) + int (length (opamps p))"
    for i j
    using that A(3,4,5) by (simp add: mat_get_ent)
  then show ?thesis using A(1-4) by blast
qed

text \<open>
  Claim C1. With \<open>N = get_max_node + 1\<close>, \<open>compute_matrix_A\<close> returns a matrix whose
  entry \<open>(i, j)\<close>, for \<open>i, j < N\<close>, is the sum over all admittances \<open>(a, b, Y)\<close> of their
  contributions: \<open>+Y\<close> at \<open>(a, a)\<close> when \<open>a \<ge> 0\<close>, \<open>+Y\<close> at \<open>(b, b)\<close> when \<open>b \<ge> 0\<close>, \<open>-Y\<close>
  at \<open>(a, b)\<close> and at \<open>(b, a)\<close> when both are non-negative. The sum over no admittance is
  zero. An admittance with a negative terminal adds nothing off the diagonal.
\<close>

theorem conductance_block_assembly:
  "\<exists>A. compute_matrix_A p (get_max_node p + 1) = Inr A
     \<and> (\<forall>i j. 0 \<le> i \<and> i < get_max_node p + 1 \<and> 0 \<le> j \<and> j < get_max_node p + 1 \<longrightarrow>
          mat_get A i j =
            Inr (\<Sum>elem\<leftarrow>admittances p.
                   (if fst (adm_nodes elem) \<ge> 0 \<and> i = fst (adm_nodes elem) \<and> j = fst (adm_nodes elem)
                    then adm_Y elem else 0)
                 + (if snd (adm_nodes elem) \<ge> 0 \<and> i = snd (adm_nodes elem) \<and> j = snd (adm_nodes elem)
                    then adm_Y elem else 0)
                 - (if fst (adm_nodes elem) \<ge> 0 \<and> snd (adm_nodes elem) \<ge> 0
                       \<and> i = fst (adm_nodes elem) \<and> j = snd (adm_nodes elem)
                    then adm_Y elem else 0)
                 - (if fst (adm_nodes elem) \<ge> 0 \<and> snd (adm_nodes elem) \<ge> 0
                       \<and> i = snd (adm_nodes elem) \<and> j = fst (adm_nodes elem)
                    then adm_Y elem else 0)))
     \<and> (\<forall>elem i j. (fst (adm_nodes elem) < 0 \<or> snd (adm_nodes elem) < 0) \<and> i \<noteq> j \<longrightarrow>
          G_contribution elem i j = 0)"
proof -
  from compute_matrix_A_solve[of p] obtain A where
    A: "compute_matrix_A p (get_max_node p + 1) = Inr A"
     "\<forall>i j. 0 \<le> i \<and> i < get_max_node p + 1 + int (length (voltage_sources p)) + int (length (opamps p))
             \<and> 0 \<le> j \<and> j < get_max_node p + 1 + int (length (voltage_sources p)) + int (length (opamps p)) \<longrightarrow>
          mat_get A i j = Inr (A_entry p (get_max_node p + 1) i j)"
    by blast
  have "mat_get A i j = Inr (\<Sum>elem\<leftarrow>admittances p. G_contribution elem i j)"
    if "0 \<le> i" "i < get_max_node p + 1" "0 \<le> j" "j < get_max_node p + 1" for i j
    using A(2) that by (simp add: A_entry_def)
  moreover have "G_contribution elem i j = 0"
    if "(fst (adm_nodes elem) < 0 \<or> snd (adm_nodes elem) < 0) \<and> i \<noteq> j" for elem i j
    using that by (auto simp add: G_contribution_def Let_def)
  ultimately show ?thesis using A(1) unfolding G_contribution_def Let_def by blast
qed

text \<open>
  Claim C2. With \<open>N = get_max_node + 1\<close>, \<open>V\<close> voltage sources and \<open>P\<close> op-amps, the
  matrix \<open>A\<close> is square of size \<open>N + V + P\<close>. Row \<open>N + k\<close> of \<open>A\<close> (row \<open>k\<close> of \<open>C\<close>) is,
  for \<open>k < V\<close>, column \<open>N + k\<close> (column \<open>k\<close> of \<open>B\<close>), the stamp of voltage source \<open>k\<close>. For the
  op-amp \<open>q\<close>, column \<open>V + q\<close> of \<open>B\<close> has \<open>+1\<close> in the row of the output node and zero
  elsewhere; row \<open>V + q\<close> of \<open>C\<close> has the value that the assignments \<open>+1\<close> at the
  non-inverting input, then \<open>-1\<close> at the inverting input, leave and zero elsewhere; this
  row does not depend on the output node.
\<close>

theorem branch_blocks_assembly:
  "\<exists>A. compute_matrix_A p (get_max_node p + 1) = Inr A
     \<and> m_h A = get_max_node p + 1 + int (length (voltage_sources p)) + int (length (opamps p))
     \<and> m_w A = get_max_node p + 1 + int (length (voltage_sources p)) + int (length (opamps p))
     \<and> (\<forall>k i. 0 \<le> k \<and> k < int (length (voltage_sources p)) \<and> 0 \<le> i \<and> i < get_max_node p + 1 \<longrightarrow>
          mat_get A i (get_max_node p + 1 + k) =
            Inr (voltage_source_stamp (voltage_sources p ! nat k) i)
          \<and> mat_get A (get_max_node p + 1 + k) i = mat_get A i (get_max_node p + 1 + k))
     \<and> (\<forall>q i. 0 \<le> q \<and> q < int (length (opamps p)) \<and> 0 \<le> i \<and> i < get_max_node p + 1 \<longrightarrow>
          mat_get A i (get_max_node p + 1 + int (length (voltage_sources p)) + q) =
            Inr (if i = output_node (opamps p ! nat q) then 1 else 0)
          \<and> mat_get A (get_max_node p + 1 + int (length (voltage_sources p)) + q) i =
            Inr (opamp_input_stamp (opamps p ! nat q) i))
     \<and> (\<forall>opa out j. opamp_input_stamp (opa\<lparr>output_node := out\<rparr>) j = opamp_input_stamp opa j)"
proof -
  define N where "N = get_max_node p + 1"
  define V where "V = int (length (voltage_sources p))"
  define P where "P = int (length (opamps p))"
  have N: "0 \<le> N" using get_max_node_bounds(1)[of p] by (simp add: N_def)
  from compute_matrix_A_solve[of p] obtain A where
    A: "compute_matrix_A p N = Inr A" "m_h A = N + V + P" "m_w A = N + V + P"
     "\<forall>i j. 0 \<le> i \<and> i < N + V + P \<and> 0 \<le> j \<and> j < N + V + P \<longrightarrow>
          mat_get A i j = Inr (A_entry p N i j)"
    unfolding N_def V_def P_def by blast
  have vs: "mat_get A i (N + k) = Inr (voltage_source_stamp (voltage_sources p ! nat k) i)
          \<and> mat_get A (N + k) i = mat_get A i (N + k)"
    if "0 \<le> k \<and> k < V \<and> 0 \<le> i \<and> i < N" for k i
  proof -
    have "0 \<le> P" by (simp add: P_def)
    then have "mat_get A i (N + k) = Inr (A_entry p N i (N + k))"
      "mat_get A (N + k) i = Inr (A_entry p N (N + k) i)"
      using A(4) that by simp_all
    then show ?thesis using that by (simp add: A_entry_def V_def)
  qed
  have opa: "mat_get A i (N + V + q) = Inr (if i = output_node (opamps p ! nat q) then 1 else 0)
          \<and> mat_get A (N + V + q) i = Inr (opamp_input_stamp (opamps p ! nat q) i)"
    if "0 \<le> q \<and> q < P \<and> 0 \<le> i \<and> i < N" for q i
  proof -
    have "0 \<le> V" by (simp add: V_def)
    then have "mat_get A i (N + V + q) = Inr (A_entry p N i (N + V + q))"
      "mat_get A (N + V + q) i = Inr (A_entry p N (N + V + q) i)"
      using A(4) that by simp_all
    moreover have "N + V + q - N - V = q" "N + V + q - N = V + q" by simp_all
    ultimately show ?thesis using that \<open>0 \<le> V\<close>
      by (simp add: A_entry_def V_def[symmetric] opamp_output_stamp_def)
  qed
  have indep: "opamp_input_stamp (opa\<lparr>output_node := out\<rparr>) j = opamp_input_stamp opa j" for opa out j
    by (simp add: opamp_input_stamp_def)
  show ?thesis
    unfolding N_def[symmetric] V_def[symmetric] P_def[symmetric]
    using A(1,2,3) vs opa indep by blast
qed

text \<open>
  Claim C3. With \<open>N = get_max_node + 1\<close>, \<open>compute_matrix_z\<close> returns a column of
  \<open>N + V + P\<close> entries. Entry \<open>i < N\<close> is the sum over all current sources \<open>(a, b, I)\<close> of
  \<open>+I\<close> when \<open>i = a \<ge> 0\<close> and \<open>-I\<close> when \<open>i = b \<ge> 0\<close>; entry \<open>N + k\<close> is the value of
  voltage source \<open>k\<close> for \<open>k < V\<close> and zero for \<open>V \<le> k < V + P\<close>.
\<close>

theorem right_hand_side_assembly:
  "\<exists>z. compute_matrix_z p (get_max_node p + 1) = Inr z
     \<and> m_h z = get_max_node p + 1 + int (length (voltage_sources p)) + int (length (opamps p))
     \<and> m_w z = 1
     \<and> (\<forall>i. 0 \<le> i \<and> i < get_max_node p + 1 \<longrightarrow>
          mat_get z i 0 =
            Inr (\<Sum>cs\<leftarrow>current_sources p.
                   (if fst (cs_nodes cs) \<ge> 0 \<and> i = fst (cs_nodes cs)
                    then complex_of_real (cs_I cs) else 0)
                 - (if snd (cs_nodes cs) \<ge> 0 \<and> i = snd (cs_nodes cs)
                    then complex_of_real (cs_I cs) else 0)))
     \<and> (\<forall>k. 0 \<le> k \<and> k < int (length (voltage_sources p)) \<longrightarrow>
          mat_get z (get_max_node p + 1 + k) 0 =
            Inr (complex_of_real (vs_V (voltage_sources p ! nat k))))
     \<and> (\<forall>k. int (length (voltage_sources p)) \<le> k
            \<and> k < int (length (voltage_sources p)) + int (length (opamps p)) \<longrightarrow>
          mat_get z (get_max_node p + 1 + k) 0 = Inr 0)"
proof -
  define N where "N = get_max_node p + 1"
  define V where "V = int (length (voltage_sources p))"
  define P where "P = int (length (opamps p))"
  have N: "0 \<le> N" using get_max_node_bounds(1)[of p] by (simp add: N_def)
  have VP: "0 \<le> V" "0 \<le> P" by (simp_all add: V_def P_def)
  from compute_matrix_z_ok[OF N get_max_node_bounds(2)[of p, folded N_def]] obtain z where
    z: "compute_matrix_z p N = Inr z" "m_h z = N + V + P" "m_w z = 1"
     "\<forall>i. 0 \<le> i \<and> i < N + V + P \<longrightarrow> ent z i 0 = z_entry p N i"
    unfolding V_def P_def by blast
  have get: "mat_get z i 0 = Inr (z_entry p N i)" if "0 \<le> i" "i < N + V + P" for i
    using that z(2,3,4) by (simp add: mat_get_ent)
  have a: "mat_get z i 0 = Inr (\<Sum>cs\<leftarrow>current_sources p. i_contribution cs i)"
    if "0 \<le> i \<and> i < N" for i
    using get[of i] that VP by (simp add: z_entry_def)
  have b: "mat_get z (N + k) 0 = Inr (complex_of_real (vs_V (voltage_sources p ! nat k)))"
    if "0 \<le> k \<and> k < V" for k
    using get[of "N + k"] that VP N by (simp add: z_entry_def V_def)
  have c: "mat_get z (N + k) 0 = Inr 0" if "V \<le> k \<and> k < V + P" for k
    using get[of "N + k"] that VP N by (simp add: z_entry_def V_def)
  show ?thesis
    unfolding N_def[symmetric] V_def[symmetric] P_def[symmetric]
    using z(1,2,3) a b c unfolding i_contribution_def by blast
qed

lemma get_max_node_amplifier: "get_max_node amplifier_problem + 1 = 3"
  by (simp add: get_max_node_def amplifier_problem_def)

theorem conductance_block_assembly_witness:
  "\<exists>A. compute_matrix_A amplifier_problem 3 = Inr A
     \<and> mat_get A 0 0 = Inr 2 \<and> mat_get A 0 1 = Inr (- 2) \<and> mat_get A 1 1 = Inr 5
     \<and> mat_get A 2 1 = Inr (- 3) \<and> mat_get A 2 2 = Inr 8 \<and> mat_get A 0 2 = Inr 0"
proof -
  from conductance_block_assembly[of amplifier_problem, unfolded get_max_node_amplifier]
  obtain A where A: "compute_matrix_A amplifier_problem 3 = Inr A"
    and G: "\<forall>i j. 0 \<le> i \<and> i < 3 \<and> 0 \<le> j \<and> j < 3 \<longrightarrow>
          mat_get A i j =
            Inr (\<Sum>elem\<leftarrow>admittances amplifier_problem.
                   (if fst (adm_nodes elem) \<ge> 0 \<and> i = fst (adm_nodes elem) \<and> j = fst (adm_nodes elem)
                    then adm_Y elem else 0)
                 + (if snd (adm_nodes elem) \<ge> 0 \<and> i = snd (adm_nodes elem) \<and> j = snd (adm_nodes elem)
                    then adm_Y elem else 0)
                 - (if fst (adm_nodes elem) \<ge> 0 \<and> snd (adm_nodes elem) \<ge> 0
                       \<and> i = fst (adm_nodes elem) \<and> j = snd (adm_nodes elem)
                    then adm_Y elem else 0)
                 - (if fst (adm_nodes elem) \<ge> 0 \<and> snd (adm_nodes elem) \<ge> 0
                       \<and> i = snd (adm_nodes elem) \<and> j = fst (adm_nodes elem)
                    then adm_Y elem else 0))"
    by blast
  from G[rule_format, of 0 0] G[rule_format, of 0 1] G[rule_format, of 1 1]
    G[rule_format, of 2 1] G[rule_format, of 2 2] G[rule_format, of 0 2]
  have "mat_get A 0 0 = Inr 2 \<and> mat_get A 0 1 = Inr (- 2) \<and> mat_get A 1 1 = Inr 5
     \<and> mat_get A 2 1 = Inr (- 3) \<and> mat_get A 2 2 = Inr 8 \<and> mat_get A 0 2 = Inr 0"
    by (simp add: amplifier_problem_def)
  with A show ?thesis by blast
qed

theorem branch_blocks_assembly_witness:
  "\<exists>A. compute_matrix_A amplifier_problem 3 = Inr A \<and> m_h A = 5 \<and> m_w A = 5
     \<and> mat_get A 0 3 = Inr 1 \<and> mat_get A 3 0 = Inr 1 \<and> mat_get A 1 3 = Inr 0
     \<and> mat_get A 2 4 = Inr 1 \<and> mat_get A 1 4 = Inr 0
     \<and> mat_get A 4 1 = Inr (- 1) \<and> mat_get A 4 2 = Inr 0 \<and> mat_get A 4 0 = Inr 0"
proof -
  from branch_blocks_assembly[of amplifier_problem, unfolded get_max_node_amplifier]
  obtain A where A: "compute_matrix_A amplifier_problem 3 = Inr A"
      "m_h A = 3 + int (length (voltage_sources amplifier_problem))
                 + int (length (opamps amplifier_problem))"
      "m_w A = 3 + int (length (voltage_sources amplifier_problem))
                 + int (length (opamps amplifier_problem))"
    and vs: "\<forall>k i. 0 \<le> k \<and> k < int (length (voltage_sources amplifier_problem)) \<and> 0 \<le> i \<and> i < 3 \<longrightarrow>
          mat_get A i (3 + k) =
            Inr (voltage_source_stamp (voltage_sources amplifier_problem ! nat k) i)
          \<and> mat_get A (3 + k) i = mat_get A i (3 + k)"
    and opa: "\<forall>q i. 0 \<le> q \<and> q < int (length (opamps amplifier_problem)) \<and> 0 \<le> i \<and> i < 3 \<longrightarrow>
          mat_get A i (3 + int (length (voltage_sources amplifier_problem)) + q) =
            Inr (if i = output_node (opamps amplifier_problem ! nat q) then 1 else 0)
          \<and> mat_get A (3 + int (length (voltage_sources amplifier_problem)) + q) i =
            Inr (opamp_input_stamp (opamps amplifier_problem ! nat q) i)"
    by blast
  from vs[rule_format, of 0 0] vs[rule_format, of 0 1]
    opa[rule_format, of 0 0] opa[rule_format, of 0 1] opa[rule_format, of 0 2]
  have "mat_get A 0 3 = Inr 1 \<and> mat_get A 3 0 = Inr 1 \<and> mat_get A 1 3 = Inr 0
     \<and> mat_get A 2 4 = Inr 1 \<and> mat_get A 1 4 = Inr 0
     \<and> mat_get A 4 1 = Inr (- 1) \<and> mat_get A 4 2 = Inr 0 \<and> mat_get A 4 0 = Inr 0"
    by (simp add: amplifier_problem_def voltage_source_stamp_def opamp_input_stamp_def)
  moreover have "m_h A = 5" "m_w A = 5" using A(2,3) by (simp_all add: amplifier_problem_def)
  ultimately show ?thesis using A(1) by blast
qed

theorem right_hand_side_assembly_witness:
  "\<exists>z. compute_matrix_z amplifier_problem 3 = Inr z \<and> m_h z = 5 \<and> m_w z = 1
     \<and> mat_get z 0 0 = Inr 0 \<and> mat_get z 1 0 = Inr (- 7) \<and> mat_get z 2 0 = Inr 0
     \<and> mat_get z 3 0 = Inr 1 \<and> mat_get z 4 0 = Inr 0"
proof -
  from right_hand_side_assembly[of amplifier_problem, unfolded get_max_node_amplifier]
  obtain z where z: "compute_matrix_z amplifier_problem 3 = Inr z"
      "m_h z = 3 + int (length (voltage_sources amplifier_problem))
                 + int (length (opamps amplifier_problem))" "m_w z = 1"
    and i: "\<forall>i. 0 \<le> i \<and> i < 3 \<longrightarrow>
          mat_get z i 0 =
            Inr (\<Sum>cs\<leftarrow>current_sources amplifier_problem.
                   (if fst (cs_nodes cs) \<ge> 0 \<and> i = fst (cs_nodes cs)
                    then complex_of_real (cs_I cs) else 0)
                 - (if snd (cs_nodes cs) \<ge> 0 \<and> i = snd (cs_nodes cs)
                    then complex_of_real (cs_I cs) else 0))"
    and e: "\<forall>k. 0 \<le> k \<and> k < int (length (voltage_sources amplifier_problem)) \<longrightarrow>
          mat_get z (3 + k) 0 =
            Inr (complex_of_real (vs_V (voltage_sources amplifier_problem ! nat k)))"
    and o: "\<forall>k. int (length (voltage_sources amplifier_problem)) \<le> k
            \<and> k < int (length (voltage_sources amplifier_problem))
                  + int (length (opamps amplifier_problem)) \<longrightarrow>
          mat_get z (3 + k) 0 = Inr 0"
    by blast
  from i[rule_format, of 0] i[rule_format, of 1] i[rule_format, of 2] e[rule_format, of 0]
    o[rule_format, of 1]
  have "mat_get z 0 0 = Inr 0 \<and> mat_get z 1 0 = Inr (- 7) \<and> mat_get z 2 0 = Inr 0
     \<and> mat_get z 3 0 = Inr 1 \<and> mat_get z 4 0 = Inr 0"
    by (simp add: amplifier_problem_def)
  moreover have "m_h z = 5" using z(2) by (simp add: amplifier_problem_def)
  ultimately show ?thesis using z(1,3) by blast
qed

section \<open>Gaussian elimination\<close>

subsection \<open>Row operations\<close>

lemma swap_rows_ok:
  assumes wf: "wf_matrix M" and a: "0 \<le> a" "a < m_h M" and b: "0 \<le> b" "b < m_h M"
  shows "\<exists>M'. swap_rows M a b = Inr M' \<and> same_shape M' M \<and>
     (\<forall>r c. 0 \<le> r \<and> r < m_h M \<and> 0 \<le> c \<and> c < m_w M \<longrightarrow>
        ent M' r c = (if r = a then ent M b c else if r = b then ent M a c else ent M r c))"
proof -
  define I where "I = (\<lambda>(i::int) M'. same_shape M' M \<and>
     (\<forall>r c. 0 \<le> r \<and> r < m_h M \<and> 0 \<le> c \<and> c < m_w M \<longrightarrow>
        ent M' r c = (if c < i then (if r = a then ent M b c else if r = b then ent M a c
                                     else ent M r c)
                      else ent M r c)))"
  have w: "0 \<le> m_w M" using wf by (simp add: wf_matrix_def)
  have "\<exists>M'. for_loop 0 (m_w M)
       (\<lambda>i mat. bind_err (mat_get mat a i) (\<lambda>x. bind_err (mat_get mat b i) (\<lambda>y.
                 bind_err (mat_set mat a i y) (\<lambda>mat. mat_set mat b i x)))) M = Inr M'
       \<and> I (m_w M) M'"
  proof (rule for_loop_rule[where I = I])
    show "0 \<le> m_w M" by (rule w)
    show "I 0 M" using wf by (simp add: I_def same_shape_def)
  next
    fix i t assume i: "0 \<le> i" "i < m_w M" and t: "I i t"
    from t have wft: "wf_matrix t" and d: "m_h t = m_h M" "m_w t = m_w M"
      by (simp_all add: I_def same_shape_def)
    define t1 where "t1 = mat_upd t a i (ent t b i)"
    define t2 where "t2 = mat_upd t1 b i (ent t a i)"
    have wf1: "wf_matrix t1" "m_h t1 = m_h M" "m_w t1 = m_w M" using wft d by (simp_all add: t1_def)
    have run: "bind_err (mat_get t a i) (\<lambda>x. bind_err (mat_get t b i) (\<lambda>y.
                 bind_err (mat_set t a i y) (\<lambda>mat. mat_set mat b i x))) = Inr t2"
      using a b i d by (simp add: mat_get_ent mat_set_upd t1_def t2_def)
    have old: "ent t r c = (if c < i then (if r = a then ent M b c else if r = b then ent M a c
                                     else ent M r c)
                      else ent M r c)"
      if "0 \<le> r \<and> r < m_h M \<and> 0 \<le> c \<and> c < m_w M" for r c
      using t that by (simp add: I_def)
    have "I (i + 1) t2"
      unfolding I_def
    proof (intro conjI allI impI)
      show "same_shape t2 M" using wf1 by (simp add: same_shape_def t2_def)
    next
      fix r c assume rc: "0 \<le> r \<and> r < m_h M \<and> 0 \<le> c \<and> c < m_w M"
      have e1: "ent t1 r c = (if r = a \<and> c = i then ent t b i else ent t r c)"
        using rc a i d wft by (simp add: t1_def ent_mat_upd)
      have e2: "ent t2 r c = (if r = b \<and> c = i then ent t a i else ent t1 r c)"
        using rc b i wf1 by (simp add: t2_def ent_mat_upd)
      show "ent t2 r c = (if c < i + 1 then (if r = a then ent M b c else if r = b then ent M a c
                                     else ent M r c)
                      else ent M r c)"
        unfolding e2 e1 using old[OF rc] old[of a i] old[of b i] a b i rc by auto
    qed
    then show "\<exists>t'. bind_err (mat_get t a i) (\<lambda>x. bind_err (mat_get t b i) (\<lambda>y.
                 bind_err (mat_set t a i y) (\<lambda>mat. mat_set mat b i x))) = Inr t' \<and> I (i + 1) t'"
      using run by simp
  qed
  then show ?thesis by (auto simp add: swap_rows_def I_def)
qed

lemma multiply_row_ok:
  assumes wf: "wf_matrix M" and a: "0 \<le> a" "a < m_h M"
  shows "\<exists>M'. multiply_row M a k = Inr M' \<and> same_shape M' M \<and>
     (\<forall>r c. 0 \<le> r \<and> r < m_h M \<and> 0 \<le> c \<and> c < m_w M \<longrightarrow>
        ent M' r c = (if r = a then ent M r c * k else ent M r c))"
proof -
  define I where "I = (\<lambda>(i::int) M'. same_shape M' M \<and>
     (\<forall>r c. 0 \<le> r \<and> r < m_h M \<and> 0 \<le> c \<and> c < m_w M \<longrightarrow>
        ent M' r c = (if c < i \<and> r = a then ent M r c * k else ent M r c)))"
  have w: "0 \<le> m_w M" using wf by (simp add: wf_matrix_def)
  have "\<exists>M'. for_loop 0 (m_w M) (\<lambda>i mat. mat_modify mat a i (\<lambda>x. x * k)) M = Inr M'
       \<and> I (m_w M) M'"
  proof (rule for_loop_rule[where I = I])
    show "0 \<le> m_w M" by (rule w)
    show "I 0 M" using wf by (simp add: I_def same_shape_def)
  next
    fix i t assume i: "0 \<le> i" "i < m_w M" and t: "I i t"
    from t have wft: "wf_matrix t" and d: "m_h t = m_h M" "m_w t = m_w M"
      by (simp_all add: I_def same_shape_def)
    define t1 where "t1 = mat_upd t a i (ent t a i * k)"
    have run: "mat_modify t a i (\<lambda>x. x * k) = Inr t1"
      using a i d by (simp add: mat_modify_upd t1_def)
    have old: "ent t r c = (if c < i \<and> r = a then ent M r c * k else ent M r c)"
      if "0 \<le> r \<and> r < m_h M \<and> 0 \<le> c \<and> c < m_w M" for r c
      using t that by (simp add: I_def)
    have "I (i + 1) t1"
      unfolding I_def
    proof (intro conjI allI impI)
      show "same_shape t1 M" using wft d by (simp add: same_shape_def t1_def)
    next
      fix r c assume rc: "0 \<le> r \<and> r < m_h M \<and> 0 \<le> c \<and> c < m_w M"
      have e1: "ent t1 r c = (if r = a \<and> c = i then ent t a i * k else ent t r c)"
        using rc a i d wft by (simp add: t1_def ent_mat_upd)
      show "ent t1 r c = (if c < i + 1 \<and> r = a then ent M r c * k else ent M r c)"
        unfolding e1 using old[OF rc] old[of a i] a i rc by auto
    qed
    then show "\<exists>t'. mat_modify t a i (\<lambda>x. x * k) = Inr t' \<and> I (i + 1) t'"
      using run by simp
  qed
  then show ?thesis by (auto simp add: multiply_row_def I_def)
qed

lemma add_rows_ok:
  assumes wf: "wf_matrix M" and a: "0 \<le> dest" "dest < m_h M" and b: "0 \<le> src" "src < m_h M"
  shows "\<exists>M'. add_rows M dest src = Inr M' \<and> same_shape M' M \<and>
     (\<forall>r c. 0 \<le> r \<and> r < m_h M \<and> 0 \<le> c \<and> c < m_w M \<longrightarrow>
        ent M' r c = (if r = dest then ent M dest c + ent M src c else ent M r c))"
proof -
  define I where "I = (\<lambda>(i::int) M'. same_shape M' M \<and>
     (\<forall>r c. 0 \<le> r \<and> r < m_h M \<and> 0 \<le> c \<and> c < m_w M \<longrightarrow>
        ent M' r c = (if c < i \<and> r = dest then ent M dest c + ent M src c else ent M r c)))"
  have w: "0 \<le> m_w M" using wf by (simp add: wf_matrix_def)
  have "\<exists>M'. for_loop 0 (m_w M)
       (\<lambda>i mat. bind_err (mat_get mat src i) (\<lambda>v. mat_modify mat dest i (\<lambda>x. x + v))) M = Inr M'
       \<and> I (m_w M) M'"
  proof (rule for_loop_rule[where I = I])
    show "0 \<le> m_w M" by (rule w)
    show "I 0 M" using wf by (simp add: I_def same_shape_def)
  next
    fix i t assume i: "0 \<le> i" "i < m_w M" and t: "I i t"
    from t have wft: "wf_matrix t" and d: "m_h t = m_h M" "m_w t = m_w M"
      by (simp_all add: I_def same_shape_def)
    define t1 where "t1 = mat_upd t dest i (ent t dest i + ent t src i)"
    have run: "bind_err (mat_get t src i) (\<lambda>v. mat_modify t dest i (\<lambda>x. x + v)) = Inr t1"
      using a b i d by (simp add: mat_get_ent mat_modify_upd t1_def)
    have old: "ent t r c = (if c < i \<and> r = dest then ent M dest c + ent M src c else ent M r c)"
      if "0 \<le> r \<and> r < m_h M \<and> 0 \<le> c \<and> c < m_w M" for r c
      using t that by (simp add: I_def)
    have "I (i + 1) t1"
      unfolding I_def
    proof (intro conjI allI impI)
      show "same_shape t1 M" using wft d by (simp add: same_shape_def t1_def)
    next
      fix r c assume rc: "0 \<le> r \<and> r < m_h M \<and> 0 \<le> c \<and> c < m_w M"
      have e1: "ent t1 r c = (if r = dest \<and> c = i then ent t dest i + ent t src i else ent t r c)"
        using rc a i d wft by (simp add: t1_def ent_mat_upd)
      show "ent t1 r c = (if c < i + 1 \<and> r = dest then ent M dest c + ent M src c else ent M r c)"
        unfolding e1 using old[OF rc] old[of dest i] old[of src i] a b i rc by auto
    qed
    then show "\<exists>t'. bind_err (mat_get t src i) (\<lambda>v. mat_modify t dest i (\<lambda>x. x + v)) = Inr t'
        \<and> I (i + 1) t'"
      using run by simp
  qed
  then show ?thesis by (auto simp add: add_rows_def I_def)
qed

subsection \<open>The pivot search\<close>

lemma find_pivot_ok:
  assumes d: "m_h M = N" "k < m_w M" and k: "0 \<le> k" "k < N"
  shows "\<exists>row. find_pivot M N k = Inr (pivot_max M N k, row) \<and> k \<le> row \<and> row < N
           \<and> cmod (ent M row k) = pivot_max M N k"
proof -
  define I where "I = (\<lambda>(i::int) (st :: real \<times> int). k \<le> snd st \<and> snd st < i
     \<and> fst st = cmod (ent M (snd st) k) \<and> (\<forall>r. k \<le> r \<and> r < i \<longrightarrow> cmod (ent M r k) \<le> fst st))"
  have "\<exists>st. for_loop (k + 1) N
         (\<lambda>i (mx, row_max). bind_err (mat_get M i k) (\<lambda>q.
            let x = cmod q in if x > mx then Inr (x, i) else Inr (mx, row_max)))
         (cmod (ent M k k), k) = Inr st \<and> I N st"
  proof (rule for_loop_rule[where I = I])
    show "k + 1 \<le> N" using k by simp
    show "I (k + 1) (cmod (ent M k k), k)"
      unfolding I_def
    proof (intro conjI allI impI)
      fix r assume "k \<le> r \<and> r < k + 1"
      then have "r = k" by simp
      then show "cmod (ent M r k) \<le> fst (cmod (ent M k k), k)" by simp
    qed simp_all
  next
    fix i st assume i: "k + 1 \<le> i" "i < N" and st: "I i st"
    obtain mx row where s: "st = (mx, row)" by (cases st)
    have get: "mat_get M i k = Inr (ent M i k)" using i k d by (simp add: mat_get_ent)
    from st have inv: "k \<le> row" "row < i" "mx = cmod (ent M row k)"
      "\<forall>r. k \<le> r \<and> r < i \<longrightarrow> cmod (ent M r k) \<le> mx"
      by (auto simp add: I_def s)
    show "\<exists>t'. (case st of (mx, row_max) \<Rightarrow> bind_err (mat_get M i k) (\<lambda>q.
            let x = cmod q in if x > mx then Inr (x, i) else Inr (mx, row_max))) = Inr t'
          \<and> I (i + 1) t'"
    proof (cases "cmod (ent M i k) > mx")
      case True
      have "I (i + 1) (cmod (ent M i k), i)"
        unfolding I_def
      proof (intro conjI allI impI)
        fix r assume r: "k \<le> r \<and> r < i + 1"
        show "cmod (ent M r k) \<le> fst (cmod (ent M i k), i)"
        proof (cases "r = i")
          case True
          then show ?thesis by simp
        next
          case False
          then have "k \<le> r \<and> r < i" using r by simp
          then have "cmod (ent M r k) \<le> mx" using inv(4) by blast
          then show ?thesis using \<open>cmod (ent M i k) > mx\<close> by simp
        qed
      qed (use i in simp_all)
      then show ?thesis using True get by (simp add: s Let_def)
    next
      case False
      have "I (i + 1) (mx, row)"
        unfolding I_def
      proof (intro conjI allI impI)
        fix r assume r: "k \<le> r \<and> r < i + 1"
        show "cmod (ent M r k) \<le> fst (mx, row)"
        proof (cases "r = i")
          case True
          then show ?thesis using False by simp
        next
          case ne: False
          then have "k \<le> r \<and> r < i" using r by simp
          then show ?thesis using inv(4) by simp
        qed
      qed (use inv in simp_all)
      then show ?thesis using False get by (simp add: s Let_def)
    qed
  qed
  then obtain st where st: "for_loop (k + 1) N
         (\<lambda>i (mx, row_max). bind_err (mat_get M i k) (\<lambda>q.
            let x = cmod q in if x > mx then Inr (x, i) else Inr (mx, row_max)))
         (cmod (ent M k k), k) = Inr st" "I N st"
    by blast
  obtain mx row where s: "st = (mx, row)" by (cases st)
  from st(2) have inv: "k \<le> row" "row < N" "mx = cmod (ent M row k)"
      "\<forall>r. k \<le> r \<and> r < N \<longrightarrow> cmod (ent M r k) \<le> mx"
    by (auto simp add: I_def s)
  have "pivot_max M N k = mx"
    unfolding pivot_max_def
  proof (rule Max_eqI)
    show "finite ((\<lambda>r. cmod (ent M r k)) ` {k..<N})" by simp
    show "y \<le> mx" if "y \<in> (\<lambda>r. cmod (ent M r k)) ` {k..<N}" for y using that inv(4) by auto
    show "mx \<in> (\<lambda>r. cmod (ent M r k)) ` {k..<N}" using inv(1,2,3) by auto
  qed
  moreover have "find_pivot M N k = Inr (mx, row)"
    using st(1) k d by (simp add: find_pivot_def mat_get_ent s)
  ultimately show ?thesis using inv by auto
qed


subsection \<open>One elimination step\<close>

lemma eliminate_below_ok:
  assumes wf: "wf_matrix M" and d: "m_h M = N" "k < m_w M" and k: "0 \<le> k" "k < N"
  shows "\<exists>M'. eliminate_below N k v M = Inr M' \<and> same_shape M' M \<and>
     (\<forall>r c. 0 \<le> r \<and> r < N \<and> 0 \<le> c \<and> c < m_w M \<longrightarrow>
        ent M' r c = (if k < r \<and> ent M r k \<noteq> 0
                      then ent M r c * (- v / ent M r k) + ent M k c else ent M r c))"
proof -
  define body where "body = (\<lambda>i mat. bind_err (mat_get mat i k) (\<lambda>a.
          if a \<noteq> 0
          then bind_err (mat_get mat i k) (\<lambda>a'.
               bind_err (multiply_row mat i (- v / a')) (\<lambda>mat. add_rows mat i k))
          else Inr mat))"
  define I where "I = (\<lambda>(i::int) M'. same_shape M' M \<and>
     (\<forall>r c. 0 \<le> r \<and> r < N \<and> 0 \<le> c \<and> c < m_w M \<longrightarrow>
        ent M' r c = (if k < r \<and> r < i \<and> ent M r k \<noteq> 0
                      then ent M r c * (- v / ent M r k) + ent M k c else ent M r c)))"
  have "\<exists>M'. for_loop (k + 1) N body M = Inr M' \<and> I N M'"
  proof (rule for_loop_rule[where I = I])
    show "k + 1 \<le> N" using k by simp
    show "I (k + 1) M" using wf by (auto simp add: I_def same_shape_def)
  next
    fix i t assume i: "k + 1 \<le> i" "i < N" and t: "I i t"
    from t have wft: "wf_matrix t" and dt: "m_h t = N" "m_w t = m_w M"
      by (simp_all add: I_def same_shape_def d)
    have old: "ent t r c = (if k < r \<and> r < i \<and> ent M r k \<noteq> 0
                      then ent M r c * (- v / ent M r k) + ent M k c else ent M r c)"
      if "0 \<le> r \<and> r < N \<and> 0 \<le> c \<and> c < m_w M" for r c
      using t that by (simp add: I_def)
    have i0: "0 \<le> i" using i k by simp
    have rowi: "ent t i c = ent M i c" if "0 \<le> c \<and> c < m_w M" for c
      using old[of i c] that i i0 by simp
    have rowk: "ent t k c = ent M k c" if "0 \<le> c \<and> c < m_w M" for c
      using old[of k c] that k by simp
    have get: "mat_get t i k = Inr (ent M i k)"
      using i i0 k d dt rowi[of k] by (simp add: mat_get_ent)
    show "\<exists>t'. body i t = Inr t' \<and> I (i + 1) t'"
    proof (cases "ent M i k = 0")
      case True
      have "I (i + 1) t"
        unfolding I_def
      proof (intro conjI allI impI)
        fix r c assume rc: "0 \<le> r \<and> r < N \<and> 0 \<le> c \<and> c < m_w M"
        show "ent t r c = (if k < r \<and> r < i + 1 \<and> ent M r k \<noteq> 0
                      then ent M r c * (- v / ent M r k) + ent M k c else ent M r c)"
          using old[OF rc] True by (cases "r = i") auto
      qed (use t in \<open>simp add: I_def\<close>)
      then show ?thesis using True get by (simp add: body_def)
    next
      case False
      from multiply_row_ok[OF wft, of i "- v / ent M i k"] i0 i dt
      obtain t1 where t1: "multiply_row t i (- v / ent M i k) = Inr t1" "same_shape t1 t"
        "\<forall>r c. 0 \<le> r \<and> r < N \<and> 0 \<le> c \<and> c < m_w M \<longrightarrow>
            ent t1 r c = (if r = i then ent t r c * (- v / ent M i k) else ent t r c)"
        by auto
      have wf1: "wf_matrix t1" "m_h t1 = N" "m_w t1 = m_w M"
        using t1(2) dt by (simp_all add: same_shape_def)
      from add_rows_ok[OF wf1(1), of i k] i0 i k wf1
      obtain t2 where t2: "add_rows t1 i k = Inr t2" "same_shape t2 t1"
        "\<forall>r c. 0 \<le> r \<and> r < N \<and> 0 \<le> c \<and> c < m_w M \<longrightarrow>
            ent t2 r c = (if r = i then ent t1 i c + ent t1 k c else ent t1 r c)"
        by auto
      have run: "body i t = Inr t2" using False get t1(1) t2(1) by (simp add: body_def)
      have "I (i + 1) t2"
        unfolding I_def
      proof (intro conjI allI impI)
        show "same_shape t2 M" using t2(2) wf1 d by (simp add: same_shape_def)
      next
        fix r c assume rc: "0 \<le> r \<and> r < N \<and> 0 \<le> c \<and> c < m_w M"
        have c: "0 \<le> c \<and> c < m_w M" using rc by simp
        show "ent t2 r c = (if k < r \<and> r < i + 1 \<and> ent M r k \<noteq> 0
                      then ent M r c * (- v / ent M r k) + ent M k c else ent M r c)"
        proof (cases "r = i")
          case True
          have "ent t2 i c = ent t1 i c + ent t1 k c" using t2(3) rc True by simp
          also have "ent t1 i c = ent M i c * (- v / ent M i k)"
            using t1(3) rc True rowi[OF c] by simp
          also have "ent t1 k c = ent M k c"
            using t1(3)[rule_format, of k c] c k i rowk[OF c] by simp
          finally show ?thesis using True False i by simp
        next
          case ne: False
          have "ent t2 r c = ent t r c" using t2(3) t1(3) rc ne by simp
          then show ?thesis using old[OF rc] ne by auto
        qed
      qed
      then show ?thesis using run by blast
    qed
  qed
  then show ?thesis by (auto simp add: eliminate_below_def body_def I_def)
qed

lemma elimination_step_ok:
  assumes wf: "wf_matrix M" and d: "m_h M = N" "m_w M = N + 1" and k: "0 \<le> k" "k < N"
  shows "(pivot_max M N k = 0 \<longrightarrow> elimination_step N k M = Inl SingularSystem) \<and>
     (pivot_max M N k \<noteq> 0 \<longrightarrow>
        (\<exists>row S M'. k \<le> row \<and> row < N \<and> cmod (ent M row k) = pivot_max M N k
           \<and> swap_rows M row k = Inr S \<and> same_shape S M
           \<and> (\<forall>r c. 0 \<le> r \<and> r < N \<and> 0 \<le> c \<and> c \<le> N \<longrightarrow>
                ent S r c = (if r = row then ent M k c else if r = k then ent M row c
                             else ent M r c))
           \<and> elimination_step N k M = Inr M' \<and> same_shape M' M
           \<and> (\<forall>r c. 0 \<le> r \<and> r < N \<and> 0 \<le> c \<and> c \<le> N \<longrightarrow>
                ent M' r c = (if k < r \<and> ent S r k \<noteq> 0
                              then ent S r c * (- ent S k k / ent S r k) + ent S k c
                              else ent S r c))))"
proof -
  have kw: "k < m_w M" using k d by simp
  from find_pivot_ok[OF d(1) kw k] obtain row where
    row: "find_pivot M N k = Inr (pivot_max M N k, row)" "k \<le> row" "row < N"
      "cmod (ent M row k) = pivot_max M N k"
    by blast
  have fail: "elimination_step N k M = Inl SingularSystem" if "pivot_max M N k = 0"
    using row(1) that by (simp add: elimination_step_def SingularSystem_def)
  have ok: "\<exists>row S M'. k \<le> row \<and> row < N \<and> cmod (ent M row k) = pivot_max M N k
           \<and> swap_rows M row k = Inr S \<and> same_shape S M
           \<and> (\<forall>r c. 0 \<le> r \<and> r < N \<and> 0 \<le> c \<and> c \<le> N \<longrightarrow>
                ent S r c = (if r = row then ent M k c else if r = k then ent M row c
                             else ent M r c))
           \<and> elimination_step N k M = Inr M' \<and> same_shape M' M
           \<and> (\<forall>r c. 0 \<le> r \<and> r < N \<and> 0 \<le> c \<and> c \<le> N \<longrightarrow>
                ent M' r c = (if k < r \<and> ent S r k \<noteq> 0
                              then ent S r c * (- ent S k k / ent S r k) + ent S k c
                              else ent S r c))"
    if nz: "pivot_max M N k \<noteq> 0"
  proof -
    from swap_rows_ok[OF wf, of row k] row(2,3) k d obtain S where
      S: "swap_rows M row k = Inr S" "same_shape S M"
        "\<forall>r c. 0 \<le> r \<and> r < N \<and> 0 \<le> c \<and> c < N + 1 \<longrightarrow>
           ent S r c = (if r = row then ent M k c else if r = k then ent M row c else ent M r c)"
      by auto
    have wfS: "wf_matrix S" "m_h S = N" "m_w S = N + 1" using S(2) d by (simp_all add: same_shape_def)
    have kS: "k < m_w S" using wfS k by simp
    from eliminate_below_ok[OF wfS(1,2) kS k, of "ent S k k"] wfS obtain M' where
      M': "eliminate_below N k (ent S k k) S = Inr M'" "same_shape M' S"
        "\<forall>r c. 0 \<le> r \<and> r < N \<and> 0 \<le> c \<and> c < N + 1 \<longrightarrow>
          ent M' r c = (if k < r \<and> ent S r k \<noteq> 0
                      then ent S r c * (- ent S k k / ent S r k) + ent S k c else ent S r c)"
      by auto
    have "mat_get S k k = Inr (ent S k k)" using k wfS by (simp add: mat_get_ent)
    then have run: "elimination_step N k M = Inr M'"
      using row(1) nz S(1) M'(1) by (simp add: elimination_step_def)
    have "same_shape M' M" using M'(2) S(2) by (simp add: same_shape_def)
    then show ?thesis using row(2,3,4) S run M'(3) by (intro exI[of _ row] exI[of _ S] exI[of _ M']) simp
  qed
  show ?thesis using fail ok by blast
qed

subsection \<open>The elimination loop\<close>

lemma bind_err_Inr_right [simp]: "bind_err m Inr = m"
  by (cases m) simp_all

lemma for_loop_single: "for_loop k (k + 1) body s = body k s"
proof -
  have "for_loop (k + 1) (k + 1) body = Inr" by (rule ext) simp
  then show ?thesis by (simp add: for_loop_step)
qed

lemma for_loop_snoc: "i \<le> k \<Longrightarrow> for_loop i (k + 1) body s = bind_err (for_loop i k body s) (body k)"
proof -
  assume "i \<le> k"
  then have "for_loop i (k + 1) body s = bind_err (for_loop i k body s) (for_loop k (k + 1) body)"
    by (intro for_loop_split) simp_all
  moreover have "for_loop k (k + 1) body = body k" by (rule ext) (rule for_loop_single)
  ultimately show ?thesis by simp
qed

lemma elimination_prefix_nat:
  assumes wf: "wf_matrix mat" and d: "m_h mat = N" "m_w mat = N + 1" and n: "int n \<le> N"
  shows "(\<exists>M. for_loop 0 (int n) (elimination_step N) mat = Inr M \<and> same_shape M mat) \<or>
     (\<exists>j M. 0 \<le> j \<and> j < int n \<and> for_loop 0 j (elimination_step N) mat = Inr M
        \<and> same_shape M mat \<and> pivot_max M N j = 0
        \<and> for_loop 0 (int n) (elimination_step N) mat = Inl SingularSystem)"
  using n
proof (induction n)
  case 0
  then show ?case using wf by (simp add: same_shape_def)
next
  case (Suc n)
  have step: "for_loop 0 (int (Suc n)) (elimination_step N) mat =
      bind_err (for_loop 0 (int n) (elimination_step N) mat) (elimination_step N (int n))"
    using for_loop_snoc[of 0 "int n" "elimination_step N" mat] by (simp add: add.commute)
  from Suc have IH: "(\<exists>M. for_loop 0 (int n) (elimination_step N) mat = Inr M \<and> same_shape M mat) \<or>
     (\<exists>j M. 0 \<le> j \<and> j < int n \<and> for_loop 0 j (elimination_step N) mat = Inr M
        \<and> same_shape M mat \<and> pivot_max M N j = 0
        \<and> for_loop 0 (int n) (elimination_step N) mat = Inl SingularSystem)"
    by simp
  then show ?case
  proof
    assume "\<exists>M. for_loop 0 (int n) (elimination_step N) mat = Inr M \<and> same_shape M mat"
    then obtain M where M: "for_loop 0 (int n) (elimination_step N) mat = Inr M" "same_shape M mat"
      by blast
    have wfM: "wf_matrix M" "m_h M = N" "m_w M = N + 1" using M(2) d by (simp_all add: same_shape_def)
    have k: "0 \<le> int n" "int n < N" using Suc.prems by simp_all
    note E = elimination_step_ok[OF wfM k]
    show ?thesis
    proof (cases "pivot_max M N (int n) = 0")
      case True
      then have "elimination_step N (int n) M = Inl SingularSystem" using E by blast
      then have "for_loop 0 (int (Suc n)) (elimination_step N) mat = Inl SingularSystem"
        using step M(1) by simp
      then show ?thesis using M True by (intro disjI2 exI[of _ "int n"] exI[of _ M]) simp
    next
      case False
      then obtain M' where "elimination_step N (int n) M = Inr M'" "same_shape M' M" using E by blast
      then have "for_loop 0 (int (Suc n)) (elimination_step N) mat = Inr M'" "same_shape M' mat"
        using step M by (simp_all add: same_shape_def)
      then show ?thesis by blast
    qed
  next
    assume "\<exists>j M. 0 \<le> j \<and> j < int n \<and> for_loop 0 j (elimination_step N) mat = Inr M
        \<and> same_shape M mat \<and> pivot_max M N j = 0
        \<and> for_loop 0 (int n) (elimination_step N) mat = Inl SingularSystem"
    then obtain j M where j: "0 \<le> j" "j < int n" "for_loop 0 j (elimination_step N) mat = Inr M"
      "same_shape M mat" "pivot_max M N j = 0"
      "for_loop 0 (int n) (elimination_step N) mat = Inl SingularSystem"
      by blast
    have "for_loop 0 (int (Suc n)) (elimination_step N) mat = Inl SingularSystem"
      using step j(6) by simp
    then show ?thesis using j by (intro disjI2 exI[of _ j] exI[of _ M]) simp
  qed
qed

lemma elimination_prefix:
  assumes wf: "wf_matrix mat" and d: "m_h mat = N" "m_w mat = N + 1" and k: "0 \<le> k" "k \<le> N"
  shows "(\<exists>M. for_loop 0 k (elimination_step N) mat = Inr M \<and> same_shape M mat) \<or>
     (\<exists>j M. 0 \<le> j \<and> j < k \<and> for_loop 0 j (elimination_step N) mat = Inr M
        \<and> same_shape M mat \<and> pivot_max M N j = 0
        \<and> for_loop 0 k (elimination_step N) mat = Inl SingularSystem)"
  using elimination_prefix_nat[OF wf d, of "nat k"] k by simp

lemma elimination_prefix_shape:
  assumes wf: "wf_matrix mat" and d: "m_h mat = N" "m_w mat = N + 1" and k: "0 \<le> k" "k \<le> N"
    and M: "for_loop 0 k (elimination_step N) mat = Inr M"
  shows "same_shape M mat"
  using elimination_prefix[OF wf d k] M by auto

subsection \<open>Back substitution\<close>

lemma for_loop_down_rule:
  assumes "- 1 \<le> i" and "I i s"
    and "\<And>j t. 0 \<le> j \<Longrightarrow> j \<le> i \<Longrightarrow> I j t \<Longrightarrow> \<exists>t'. body j t = Inr t' \<and> I (j - 1) t'"
  shows "\<exists>s'. for_loop_down i body s = Inr s' \<and> I (- 1) s'"
  using assms
proof (induction i body s rule: for_loop_down.induct)
  case (1 i body s)
  show ?case
  proof (cases "0 \<le> i")
    case True
    from 1(4)[of i s] True 1(3) obtain t where t: "body i s = Inr t" "I (i - 1) t" by auto
    have "\<exists>s'. for_loop_down (i - 1) body t = Inr s' \<and> I (- 1) s'"
      using 1(1)[OF True t(1)] True t(2) 1(4) by force
    then show ?thesis using True t(1) by (subst for_loop_down.simps) simp
  next
    case False
    with 1(2) have "i = - 1" by simp
    then show ?thesis using 1(3) by (subst for_loop_down.simps) simp
  qed
qed

lemma sum_int_snoc:
  fixes f :: "int \<Rightarrow> complex"
  shows "i \<le> j \<Longrightarrow> sum f {i..<j + 1} = sum f {i..<j} + f j"
proof -
  assume "i \<le> j"
  then have "{i..<j + 1} = insert j {i..<j}" by auto
  then show ?thesis by simp
qed

lemma sum_int_first:
  fixes f :: "int \<Rightarrow> complex"
  shows "i < j \<Longrightarrow> sum f {i..<j} = f i + sum f {i + 1..<j}"
proof -
  assume "i < j"
  then have "{i..<j} = insert i {i + 1..<j}" by auto
  then show ?thesis by simp
qed

lemma back_substitution_step_ok:
  assumes wfA: "m_h A = N" "m_w A = N + 1" and wfS: "wf_matrix S" "m_h S = N" "m_w S = 1"
    and i: "0 \<le> i" "i < N"
  shows "back_substitution_step N A i S =
     Inr (mat_upd S i 0 ((ent A i N - (\<Sum>j = i..<N. ent A i j * ent S j 0)) / ent A i i))"
proof -
  define I where "I = (\<lambda>(j::int) (s::complex). s = ent A i N - (\<Sum>j' = i..<j. ent A i j' * ent S j' 0))"
  have "\<exists>s. for_loop i N
                 (\<lambda>j sum. bind_err (mat_get A i j) (\<lambda>a. bind_err (mat_get S j 0) (\<lambda>x.
                    Inr (sum - a * x)))) (ent A i N) = Inr s \<and> I N s"
  proof (rule for_loop_rule[where I = I])
    show "i \<le> N" using i by simp
    show "I i (ent A i N)" by (simp add: I_def)
  next
    fix j t assume j: "i \<le> j" "j < N" and t: "I j t"
    have "bind_err (mat_get A i j) (\<lambda>a. bind_err (mat_get S j 0) (\<lambda>x. Inr (t - a * x)))
        = Inr (t - ent A i j * ent S j 0)"
      using i j wfA wfS by (simp add: mat_get_ent)
    moreover have "I (j + 1) (t - ent A i j * ent S j 0)"
      using t j by (simp add: I_def sum_int_snoc)
    ultimately show "\<exists>t'. bind_err (mat_get A i j) (\<lambda>a. bind_err (mat_get S j 0) (\<lambda>x.
                    Inr (t - a * x))) = Inr t' \<and> I (j + 1) t'"
      by simp
  qed
  then have "for_loop i N
                 (\<lambda>j sum. bind_err (mat_get A i j) (\<lambda>a. bind_err (mat_get S j 0) (\<lambda>x.
                    Inr (sum - a * x)))) (ent A i N)
           = Inr (ent A i N - (\<Sum>j = i..<N. ent A i j * ent S j 0))"
    by (auto simp add: I_def)
  then show ?thesis
    using i wfA wfS by (simp add: back_substitution_step_def mat_get_ent mat_set_upd)
qed

lemma back_substitution_ok:
  assumes wfA: "m_h A = N" "m_w A = N + 1" and N: "0 \<le> N"
  shows "\<exists>x. for_loop_down (N - 1) (back_substitution_step N A) (matrix_new N 1) = Inr x
     \<and> wf_matrix x \<and> m_h x = N \<and> m_w x = 1
     \<and> (\<forall>i. 0 \<le> i \<and> i < N \<longrightarrow>
          ent x i 0 = (ent A i N - (\<Sum>j = i + 1..<N. ent A i j * ent x j 0)) / ent A i i)"
proof -
  define I where "I = (\<lambda>(i::int) (S :: complex matrix). wf_matrix S \<and> m_h S = N \<and> m_w S = 1
     \<and> (\<forall>r. 0 \<le> r \<and> r \<le> i \<longrightarrow> ent S r 0 = 0)
     \<and> (\<forall>r. i < r \<and> r < N \<longrightarrow>
          ent S r 0 = (ent A r N - (\<Sum>j = r + 1..<N. ent A r j * ent S j 0)) / ent A r r))"
  have "\<exists>x. for_loop_down (N - 1) (back_substitution_step N A) (matrix_new N 1) = Inr x
     \<and> I (- 1) x"
  proof (rule for_loop_down_rule[where I = I])
    show "- 1 \<le> N - 1" using N by simp
    show "I (N - 1) (matrix_new N 1)"
      using N by (auto simp add: I_def wf_matrix_new ent_matrix_new)
  next
    fix i S assume i: "0 \<le> i" "i \<le> N - 1" and S: "I i S"
    from S have wfS: "wf_matrix S" "m_h S = N" "m_w S = 1"
      and zero: "\<forall>r. 0 \<le> r \<and> r \<le> i \<longrightarrow> ent S r 0 = 0"
      and solved: "\<forall>r. i < r \<and> r < N \<longrightarrow>
          ent S r 0 = (ent A r N - (\<Sum>j = r + 1..<N. ent A r j * ent S j 0)) / ent A r r"
      by (simp_all add: I_def)
    have iN: "i < N" using i by simp
    define v where "v = (ent A i N - (\<Sum>j = i..<N. ent A i j * ent S j 0)) / ent A i i"
    define S' where "S' = mat_upd S i 0 v"
    have run: "back_substitution_step N A i S = Inr S'"
      using back_substitution_step_ok[OF wfA wfS i(1) iN] by (simp add: S'_def v_def)
    have e: "ent S' r 0 = (if r = i then v else ent S r 0)" if "0 \<le> r" "r < N" for r
      using that wfS i iN by (simp add: S'_def ent_mat_upd)
    have same: "(\<Sum>j = r + 1..<N. ent A r j * ent S' j 0) = (\<Sum>j = r + 1..<N. ent A r j * ent S j 0)"
      if "i \<le> r" for r
    proof (rule sum.cong[OF refl])
      fix j assume "j \<in> {r + 1..<N}"
      then have "0 \<le> j" "j < N" "j \<noteq> i" using that i by auto
      then show "ent A r j * ent S' j 0 = ent A r j * ent S j 0" using e[of j] by simp
    qed
    have vi: "v = (ent A i N - (\<Sum>j = i + 1..<N. ent A i j * ent S' j 0)) / ent A i i"
    proof -
      have "(\<Sum>j = i..<N. ent A i j * ent S j 0) =
              ent A i i * ent S i 0 + (\<Sum>j = i + 1..<N. ent A i j * ent S j 0)"
        using iN by (rule sum_int_first)
      also have "ent S i 0 = 0" using zero i by simp
      finally show ?thesis unfolding v_def same[of i, OF order_refl] by simp
    qed
    have "I (i - 1) S'"
      unfolding I_def
    proof (intro conjI allI impI)
      show "wf_matrix S'" "m_h S' = N" "m_w S' = 1" using wfS by (simp_all add: S'_def)
    next
      fix r assume "0 \<le> r \<and> r \<le> i - 1"
      then show "ent S' r 0 = 0" using e[of r] zero iN by simp
    next
      fix r assume r: "i - 1 < r \<and> r < N"
      show "ent S' r 0 = (ent A r N - (\<Sum>j = r + 1..<N. ent A r j * ent S' j 0)) / ent A r r"
      proof (cases "r = i")
        case True
        then show ?thesis using e[of i] i iN vi by simp
      next
        case False
        then have ri: "i < r" using r by simp
        then have "ent S' r 0 = ent S r 0" using e[of r] r i by simp
        then show ?thesis using solved ri r same[of r] by simp
      qed
    qed
    then show "\<exists>t'. back_substitution_step N A i S = Inr t' \<and> I (i - 1) t'" using run by blast
  qed
  then show ?thesis by (auto simp add: I_def)
qed

subsection \<open>Row operations keep the solutions\<close>








subsection \<open>The solver\<close>


lemma eliminated_singular:
  assumes wf: "wf_matrix mat" and d: "m_w mat = m_h mat + 1"
    and k: "0 \<le> k" "k < m_h mat" and M: "eliminated k mat = Inr M"
    and z: "pivot_max M (m_h mat) k = 0"
  shows "eliminated (m_h mat) mat = Inl SingularSystem"
proof -
  define N where "N = m_h mat"
  have sh: "same_shape M mat"
    using elimination_prefix_shape[OF wf refl d, of k M] k M by (simp add: eliminated_def)
  then have wfM: "wf_matrix M" "m_h M = N" "m_w M = N + 1" using d by (simp_all add: same_shape_def N_def)
  have step: "elimination_step N k M = Inl SingularSystem"
    using elimination_step_ok[OF wfM, of k] k z by (simp add: N_def)
  have "for_loop 0 N (elimination_step N) mat =
          bind_err (for_loop 0 k (elimination_step N) mat) (for_loop k N (elimination_step N))"
    using k by (intro for_loop_split) (simp_all add: N_def)
  also have "\<dots> = for_loop k N (elimination_step N) M" using M by (simp add: eliminated_def N_def)
  also have "\<dots> = Inl SingularSystem" using k step by (simp add: for_loop_step N_def)
  finally show ?thesis by (simp add: eliminated_def N_def)
qed

lemma gaussian_elimination_cases:
  assumes wf: "wf_matrix mat" and d: "m_w mat = m_h mat + 1"
  shows "(\<exists>A x. eliminated (m_h mat) mat = Inr A \<and> gaussian_elimination mat = Inr x
            \<and> wf_matrix x \<and> m_h x = m_h mat \<and> m_w x = 1
            \<and> (\<forall>i. 0 \<le> i \<and> i < m_h mat \<longrightarrow>
                 ent x i 0 = (ent A i (m_h mat) - (\<Sum>j = i + 1..<m_h mat. ent A i j * ent x j 0))
                              / ent A i i))
       \<or> (\<exists>k M. 0 \<le> k \<and> k < m_h mat \<and> eliminated k mat = Inr M \<and> pivot_max M (m_h mat) k = 0
            \<and> gaussian_elimination mat = Inl SingularSystem)"
proof -
  define N where "N = m_h mat"
  have N: "0 \<le> N" using wf by (simp add: wf_matrix_def N_def)
  from elimination_prefix[OF wf refl d, of N, folded N_def] N
  consider (ok) A where "for_loop 0 N (elimination_step N) mat = Inr A" "same_shape A mat"
    | (fail) j M where "0 \<le> j" "j < N" "for_loop 0 j (elimination_step N) mat = Inr M"
        "pivot_max M N j = 0" "for_loop 0 N (elimination_step N) mat = Inl SingularSystem"
    by blast
  then show ?thesis
  proof cases
    case ok
    have dA: "m_h A = N" "m_w A = N + 1" using ok(2) d by (simp_all add: same_shape_def N_def)
    from back_substitution_ok[OF dA N] obtain x where
      x: "for_loop_down (N - 1) (back_substitution_step N A) (matrix_new N 1) = Inr x"
        "wf_matrix x" "m_h x = N" "m_w x = 1"
        "\<forall>i. 0 \<le> i \<and> i < N \<longrightarrow>
          ent x i 0 = (ent A i N - (\<Sum>j = i + 1..<N. ent A i j * ent x j 0)) / ent A i i"
      by blast
    have "gaussian_elimination mat = Inr x"
      using ok(1) x(1) d by (simp add: gaussian_elimination_def Let_def N_def)
    then show ?thesis using ok(1) x(2-5) unfolding eliminated_def N_def by blast
  next
    case fail
    have "gaussian_elimination mat = Inl SingularSystem"
      using fail(5) d by (simp add: gaussian_elimination_def Let_def N_def)
    then show ?thesis using fail(1-4) unfolding eliminated_def N_def by blast
  qed
qed


text \<open>
  Claim C5. When the elimination of all \<open>N\<close> columns of a well-formed \<open>N \<times> (N + 1)\<close>
  matrix succeeds and leaves the matrix \<open>A\<close>, the solver returns an \<open>N \<times> 1\<close> matrix \<open>x\<close>
  with \<open>x[i] = (A[i,N] - sum over j > i of A[i,j] * x[j]) / A[i,i]\<close> for every row \<open>i\<close>.
\<close>

theorem back_substitution_recurrence:
  assumes "wf_matrix mat" and "m_w mat = m_h mat + 1"
    and "eliminated (m_h mat) mat = Inr A"
  shows "\<exists>x. gaussian_elimination mat = Inr x \<and> m_h x = m_h mat \<and> m_w x = 1
     \<and> (\<forall>i. 0 \<le> i \<and> i < m_h mat \<longrightarrow>
          mat_get x i 0 =
            Inr ((ent A i (m_h mat) - (\<Sum>j = i + 1..<m_h mat. ent A i j * ent x j 0))
                 / ent A i i))"
proof -
  from gaussian_elimination_cases[OF assms(1,2)] assms(3)
  obtain x where x: "gaussian_elimination mat = Inr x" "m_h x = m_h mat" "m_w x = 1"
    "\<forall>i. 0 \<le> i \<and> i < m_h mat \<longrightarrow>
        ent x i 0 = (ent A i (m_h mat) - (\<Sum>j = i + 1..<m_h mat. ent A i j * ent x j 0))
                     / ent A i i"
    using eliminated_singular[OF assms(1,2)] by force
  have "mat_get x i 0 =
            Inr ((ent A i (m_h mat) - (\<Sum>j = i + 1..<m_h mat. ent A i j * ent x j 0))
                 / ent A i i)" if "0 \<le> i \<and> i < m_h mat" for i
    using x that by (simp add: mat_get_ent)
  then show ?thesis using x(1-3) by blast
qed

lemma find_pivot_regular_0: "find_pivot regular_system 2 0 = Inr (2, 1)"
  by (simp add: find_pivot_def regular_system_def for_loop_unfold mat_get_def)

lemma swap_rows_regular_0:
  "swap_rows regular_system 1 0 = Inr \<lparr>m_matrix = [2, 1, 4, 1, 1, 3], m_w = 3, m_h = 2\<rparr>"
  by (simp add: swap_rows_def regular_system_def for_loop_unfold mat_get_def mat_set_def)

lemma multiply_row_regular_0:
  "multiply_row \<lparr>m_matrix = [2, 1, 4, 1, 1, 3], m_w = 3, m_h = 2\<rparr> 1 (- 2) =
     Inr \<lparr>m_matrix = [2, 1, 4, - 2, - 2, - 6], m_w = 3, m_h = 2\<rparr>"
  by (simp add: multiply_row_def for_loop_unfold mat_modify_def mat_get_def mat_set_def)

lemma add_rows_regular_0:
  "add_rows \<lparr>m_matrix = [2, 1, 4, - 2, - 2, - 6], m_w = 3, m_h = 2\<rparr> 1 0 =
     Inr \<lparr>m_matrix = [2, 1, 4, 0, - 1, - 2], m_w = 3, m_h = 2\<rparr>"
  by (simp add: add_rows_def for_loop_unfold mat_modify_def mat_get_def mat_set_def)

lemma elimination_step_regular_0:
  "elimination_step 2 0 regular_system =
     Inr \<lparr>m_matrix = [2, 1, 4, 0, - 1, - 2], m_w = 3, m_h = 2\<rparr>"
  by (simp add: elimination_step_def find_pivot_regular_0 swap_rows_regular_0 eliminate_below_def
      for_loop_unfold mat_get_def multiply_row_regular_0 add_rows_regular_0)

lemma find_pivot_regular_1:
  "find_pivot \<lparr>m_matrix = [2, 1, 4, 0, - 1, - 2], m_w = 3, m_h = 2\<rparr> 2 1 = Inr (1, 1)"
  by (simp add: find_pivot_def for_loop_unfold mat_get_def)

lemma swap_rows_regular_1:
  "swap_rows \<lparr>m_matrix = [2, 1, 4, 0, - 1, - 2], m_w = 3, m_h = 2\<rparr> 1 1 =
     Inr \<lparr>m_matrix = [2, 1, 4, 0, - 1, - 2], m_w = 3, m_h = 2\<rparr>"
  by (simp add: swap_rows_def for_loop_unfold mat_get_def mat_set_def)

lemma elimination_step_regular_1:
  "elimination_step 2 1 \<lparr>m_matrix = [2, 1, 4, 0, - 1, - 2], m_w = 3, m_h = 2\<rparr> =
     Inr \<lparr>m_matrix = [2, 1, 4, 0, - 1, - 2], m_w = 3, m_h = 2\<rparr>"
  by (simp add: elimination_step_def find_pivot_regular_1 swap_rows_regular_1 eliminate_below_def
      for_loop_unfold mat_get_def)

lemma eliminated_regular_system:
  "eliminated 2 regular_system = Inr \<lparr>m_matrix = [2, 1, 4, 0, - 1, - 2], m_w = 3, m_h = 2\<rparr>"
proof -
  have "m_h regular_system = 2" by (simp add: regular_system_def)
  then show ?thesis
    by (simp add: eliminated_def for_loop_unfold elimination_step_regular_0
        elimination_step_regular_1)
qed











lemma wf_samples: "wf_matrix regular_system" "wf_matrix singular_system"
  by (simp_all add: wf_matrix_def regular_system_def singular_system_def)

lemma dims_samples:
  "m_h regular_system = 2" "m_w regular_system = 3" "m_h singular_system = 2" "m_w singular_system = 3"
  by (simp_all add: regular_system_def singular_system_def)

theorem back_substitution_recurrence_witness:
  "\<exists>x. gaussian_elimination regular_system = Inr x \<and> m_h x = 2 \<and> m_w x = 1
     \<and> mat_get x 1 0 = Inr 2 \<and> mat_get x 0 0 = Inr 1"
proof -
  define A :: "complex matrix" where "A = \<lparr>m_matrix = [2, 1, 4, 0, - 1, - 2], m_w = 3, m_h = 2\<rparr>"
  have e: "eliminated (m_h regular_system) regular_system = Inr A"
    using eliminated_regular_system by (simp add: dims_samples A_def)
  have d: "m_w regular_system = m_h regular_system + 1" by (simp add: dims_samples)
  have entA: "ent A 1 2 = - 2" "ent A 1 1 = - 1" "ent A 0 2 = 4" "ent A 0 1 = 1" "ent A 0 0 = 2"
    by (simp_all add: ent_def A_def)
  from back_substitution_recurrence[OF wf_samples(1) d e, unfolded dims_samples]
  obtain x where x: "gaussian_elimination regular_system = Inr x" "m_h x = 2" "m_w x = 1"
    and r: "\<forall>i. 0 \<le> i \<and> i < 2 \<longrightarrow>
          mat_get x i 0 = Inr ((ent A i 2 - (\<Sum>j = i + 1..<2. ent A i j * ent x j 0)) / ent A i i)"
    by blast
  have s1: "{1 + 1..<2::int} = {}" by simp
  have s0: "{0 + 1..<2::int} = {1}" by auto
  have "mat_get x 1 0 = Inr ((ent A 1 2 - (\<Sum>j = 1 + 1..<2. ent A 1 j * ent x j 0)) / ent A 1 1)"
    using r[rule_format, of 1] by simp
  then have x1: "mat_get x 1 0 = Inr 2" unfolding s1 entA by simp
  have "mat_get x 1 0 = Inr (ent x 1 0)" using x(2,3) by (simp add: mat_get_ent)
  with x1 have ex1: "ent x 1 0 = 2" by simp
  have "mat_get x 0 0 = Inr ((ent A 0 2 - (\<Sum>j = 0 + 1..<2. ent A 0 j * ent x j 0)) / ent A 0 0)"
    using r[rule_format, of 0] by simp
  then have x0: "mat_get x 0 0 = Inr 1" unfolding s0 by (simp add: entA ex1)
  from x x1 x0 show ?thesis by blast
qed




end
